theory Spec2Isabelle
  imports Main "HOL-Library.Word" "HOL-Library.Sublist"
begin

unbundle bit_operations_syntax

section \<open>The SPSC ring buffer of \<^verbatim>\<open>include/spsc/ringbuffer.hpp\<close>\<close>

text \<open>
  The class template \<^verbatim>\<open>spsc::Ringbuffer<T, BufferSize, FakeTSO, IndexT>\<close> is embedded with
  \<^item> the element type \<^verbatim>\<open>T\<close> as a type variable \<open>'a\<close>;
  \<^item> the index type \<^verbatim>\<open>IndexT\<close> as \<open>'i word\<close>, an unsigned integer of \<open>LENGTH('i)\<close> bits;
  \<^item> the capacity \<^verbatim>\<open>BufferSize\<close> as a parameter \<open>N :: nat\<close> of every operation;
  \<^item> \<^verbatim>\<open>std::size_t\<close> as a 64-bit word and \<^verbatim>\<open>int\<close> as a 32-bit integer (the LP64 data
    model); element counts of type \<^verbatim>\<open>std::size_t\<close> that the code never lets overflow are
    natural numbers.
  Every operation is one atomic step on the state (the two counters and the slot array):
  the memory orders of the atomic loads and stores, and with them \<^verbatim>\<open>FakeTSO\<close>, have no
  counterpart in a sequential model.
\<close>

type_synonym size_t = "64 word"

record ('w, 'a) ringbuffer_state =
  head :: "'w"
  tail :: "'w"
  data_buff :: "'a list"

type_synonym ('i, 'a) ringbuffer = "('i word, 'a) ringbuffer_state"

text \<open>The \<^verbatim>\<open>static_assert\<close>s of the class, as far as they constrain \<open>N\<close> and \<^verbatim>\<open>IndexT\<close>.\<close>

definition static_asserts :: "'i::len itself \<Rightarrow> nat \<Rightarrow> bool" where
  "static_asserts _ N \<longleftrightarrow>
     N \<noteq> 0 \<and> N AND (N - 1) = 0 \<and> LENGTH('i) \<le> 64 \<and> N \<le> drop_bit 1 (2 ^ LENGTH('i) - 1)"

text \<open>The constructor: both counters are 0, the slots are value-initialised (to \<open>z\<close>).\<close>

definition Ringbuffer :: "nat \<Rightarrow> 'a \<Rightarrow> ('i::len, 'a) ringbuffer" where
  "Ringbuffer N z = \<lparr>head = 0, tail = 0, data_buff = replicate N z\<rparr>"

text \<open>\<^verbatim>\<open>static constexpr IndexT kMask = BufferSize - 1u;\<close>\<close>

definition kMask :: "nat \<Rightarrow> 'i::len word" where
  "kMask N = of_nat N - 1"

subsection \<open>Arithmetic on \<^verbatim>\<open>IndexT\<close> operands\<close>

text \<open>
  C++ applies the integral promotions to the operands of \<^verbatim>\<open>-\<close>, \<^verbatim>\<open>+\<close>, \<^verbatim>\<open>==\<close> and
  \<^verbatim>\<open><=\<close> (the usual arithmetic conversions, [expr.arith.conv] and [conv.prom]): an \<^verbatim>\<open>IndexT\<close> narrower than \<^verbatim>\<open>int\<close> (\<^verbatim>\<open>uint8_t\<close>, \<^verbatim>\<open>uint16_t\<close>) is
  converted to \<^verbatim>\<open>int\<close>, so \<^verbatim>\<open>current_head - current_tail\<close> is then an \<^verbatim>\<open>int\<close>, negative
  when \<^verbatim>\<open>current_head < current_tail\<close>. An \<^verbatim>\<open>IndexT\<close> of at least 32 bits is not
  promoted and the subtraction wraps modulo \<open>2 ^ LENGTH('i)\<close>. (The width of \<^verbatim>\<open>int\<close> only
  decides which types count as narrow: \<^verbatim>\<open>uint8_t\<close> is promoted on every platform.)

  \<open>diff_size_t a b\<close> is the value of \<^verbatim>\<open>a - b\<close> after its conversion to \<^verbatim>\<open>std::size_t\<close>,
  which is what happens to it next to the \<^verbatim>\<open>std::size_t\<close> operand \<^verbatim>\<open>BufferSize\<close>: a
  negative \<^verbatim>\<open>int\<close> becomes that value plus \<open>2 ^ 64\<close>.

  Where the result of such an expression is stored back into an \<^verbatim>\<open>IndexT\<close>
  (\<^verbatim>\<open>current_head + 1\<close>, \<^verbatim>\<open>const IndexT available = current_head - current_tail\<close>), the
  conversion reduces it modulo \<open>2 ^ LENGTH('i)\<close>, which is the arithmetic of \<open>'i word\<close>.
\<close>

definition diff_size_t :: "'i::len word \<Rightarrow> 'i word \<Rightarrow> size_t" where
  "diff_size_t a b =
     (if LENGTH('i) < 32 then word_of_int (uint a - uint b) else ucast (a - b))"

text \<open>\<^verbatim>\<open>(current_head - current_tail) == BufferSize\<close>\<close>

definition diff_eq_BufferSize :: "nat \<Rightarrow> 'i::len word \<Rightarrow> 'i word \<Rightarrow> bool" where
  "diff_eq_BufferSize N current_head current_tail \<longleftrightarrow>
     diff_size_t current_head current_tail = of_nat N"

text \<open>\<^verbatim>\<open>BufferSize - (current_head - current_tail)\<close>, stored into an \<^verbatim>\<open>IndexT\<close>.\<close>

definition BufferSize_minus_diff :: "nat \<Rightarrow> 'i::len word \<Rightarrow> 'i word \<Rightarrow> 'i word" where
  "BufferSize_minus_diff N current_head current_tail =
     ucast ((of_nat N :: size_t) - diff_size_t current_head current_tail)"

text \<open>
  \<^verbatim>\<open>(current_head - current_tail) <= static_cast<IndexT>(index)\<close>: a comparison of two
  \<^verbatim>\<open>int\<close>s when \<^verbatim>\<open>IndexT\<close> is promoted, of two \<^verbatim>\<open>IndexT\<close>s otherwise. The cast keeps the
  low \<open>LENGTH('i)\<close> bits of \<open>index\<close>.
\<close>

definition diff_le_index :: "'i::len word \<Rightarrow> 'i word \<Rightarrow> size_t \<Rightarrow> bool" where
  "diff_le_index current_head current_tail index \<longleftrightarrow>
     (if LENGTH('i) < 32
      then uint current_head - uint current_tail \<le> uint (ucast index :: 'i word)
      else current_head - current_tail \<le> (ucast index :: 'i word))"

subsection \<open>Producer API\<close>

definition PushImpl :: "nat \<Rightarrow> ('i::len, 'a) ringbuffer \<Rightarrow> 'a \<Rightarrow> bool \<times> ('i, 'a) ringbuffer" where
  "PushImpl N s data =
     (let current_head = head s;
          current_tail = tail s
      in if diff_eq_BufferSize N current_head current_tail then (False, s)
         else (True, s\<lparr>data_buff := (data_buff s)[unat (current_head AND kMask N) := data],
                        head := current_head + 1\<rparr>))"

definition Push :: "nat \<Rightarrow> ('i::len, 'a) ringbuffer \<Rightarrow> 'a \<Rightarrow> bool \<times> ('i, 'a) ringbuffer" where
  "Push N s data = PushImpl N s data"

text \<open>
  The callable of \<^verbatim>\<open>PushFromCallback\<close> is a function on its own captured state \<open>'c\<close>: it
  returns the element and the state it leaves behind. Not calling it leaves \<open>c\<close> as it is.
\<close>

definition PushFromCallback ::
  "nat \<Rightarrow> ('i::len, 'a) ringbuffer \<Rightarrow> ('c \<Rightarrow> 'a \<times> 'c) \<Rightarrow> 'c \<Rightarrow> bool \<times> ('i, 'a) ringbuffer \<times> 'c" where
  "PushFromCallback N s callback c =
     (let current_head = head s;
          current_tail = tail s
      in if diff_eq_BufferSize N current_head current_tail then (False, s, c)
         else (case callback c of
                 (v, c') \<Rightarrow>
                   (True,
                    s\<lparr>data_buff := (data_buff s)[unat (current_head AND kMask N) := v],
                      head := current_head + 1\<rparr>,
                    c')))"

text \<open>A callable that also counts how often it has been invoked.\<close>

definition counted :: "('c \<Rightarrow> 'a \<times> 'c) \<Rightarrow> nat \<times> 'c \<Rightarrow> 'a \<times> (nat \<times> 'c)" where
  "counted callback = (\<lambda>(k, c). case callback c of (v, c') \<Rightarrow> (v, (Suc k, c')))"

text \<open>
  \<^verbatim>\<open>std::memcpy(&dst[d], src + s, n * sizeof(T))\<close> on arrays of \<^verbatim>\<open>T\<close>: element \<open>d + j\<close> of
  the destination becomes element \<open>s + j\<close> of the source, for \<open>j < n\<close>.
\<close>

fun memcpy :: "'a list \<Rightarrow> nat \<Rightarrow> 'a list \<Rightarrow> nat \<Rightarrow> nat \<Rightarrow> 'a list" where
  "memcpy dst d src s 0 = dst"
| "memcpy dst d src s (Suc n) = memcpy (dst[d := src ! s]) (Suc d) src (Suc s) n"

text \<open>
  The loop of \<^verbatim>\<open>PushBatchCore(buf, count)\<close>, from the values of \<^verbatim>\<open>written\<close> and
  \<^verbatim>\<open>current_head\<close> at the loop head. \<^verbatim>\<open>tail_\<close> is loaded afresh in every iteration.
\<close>

function PushBatchLoop ::
  "nat \<Rightarrow> 'a list \<Rightarrow> nat \<Rightarrow> nat \<Rightarrow> 'i::len word \<Rightarrow> ('i, 'a) ringbuffer \<Rightarrow> nat \<times> ('i, 'a) ringbuffer" where
  "PushBatchLoop N buf count written current_head s =
     (if written < count then
        (let current_tail = tail s;
             space = BufferSize_minus_diff N current_head current_tail
         in if space = 0 then (written, s)
            else
              (let to_write = min (count - written) (unat space);
                   head_offset = unat (current_head AND kMask N);
                   first_part = min to_write (N - head_offset);
                   buff1 = memcpy (data_buff s) head_offset buf written first_part;
                   buff2 = (if to_write > first_part
                            then memcpy buff1 0 buf (written + first_part) (to_write - first_part)
                            else buff1)
               in PushBatchLoop N buf count (written + to_write) (current_head + of_nat to_write)
                    (s\<lparr>data_buff := buff2, head := current_head + of_nat to_write\<rparr>)))
      else (written, s))"
  by pat_completeness auto
termination
  by (relation "measure (\<lambda>(N, buf, count, written, current_head, s). count - written)")
     (auto simp: min_def unat_gt_0 [symmetric])

definition PushBatchCore ::
  "nat \<Rightarrow> ('i::len, 'a) ringbuffer \<Rightarrow> 'a list \<Rightarrow> nat \<Rightarrow> nat \<times> ('i, 'a) ringbuffer" where
  "PushBatchCore N s buf count = PushBatchLoop N buf count 0 (head s) s"

definition PushBatch ::
  "nat \<Rightarrow> ('i::len, 'a) ringbuffer \<Rightarrow> 'a list \<Rightarrow> nat \<Rightarrow> nat \<times> ('i, 'a) ringbuffer" where
  "PushBatch N s buf count = PushBatchCore N s buf count"

definition ProducerClear :: "('i::len, 'a) ringbuffer \<Rightarrow> ('i, 'a) ringbuffer" where
  "ProducerClear s = s\<lparr>head := tail s\<rparr>"

subsection \<open>Consumer API\<close>

text \<open>
  \<^verbatim>\<open>Pop(T& data)\<close>: \<open>data\<close> is the value the caller's variable holds before the call; the
  second component of the result is the value it holds afterwards.
\<close>

definition Pop :: "nat \<Rightarrow> ('i::len, 'a) ringbuffer \<Rightarrow> 'a \<Rightarrow> bool \<times> 'a \<times> ('i, 'a) ringbuffer" where
  "Pop N s data =
     (let current_tail = tail s;
          current_head = head s
      in if current_tail = current_head then (False, data, s)
         else (True, data_buff s ! unat (current_tail AND kMask N), s\<lparr>tail := current_tail + 1\<rparr>))"

text \<open>
  The loop of \<^verbatim>\<open>PopBatchCore(buf, count)\<close>; \<open>buf\<close> is the caller's array, returned as the
  loop leaves it.
\<close>

function PopBatchLoop ::
  "nat \<Rightarrow> 'a list \<Rightarrow> nat \<Rightarrow> nat \<Rightarrow> 'i::len word \<Rightarrow> ('i, 'a) ringbuffer
     \<Rightarrow> nat \<times> 'a list \<times> ('i, 'a) ringbuffer" where
  "PopBatchLoop N buf count read current_tail s =
     (if read < count then
        (let current_head = head s;
             available = current_head - current_tail
         in if available = 0 then (read, buf, s)
            else
              (let to_read = min (count - read) (unat available);
                   tail_offset = unat (current_tail AND kMask N);
                   first_part = min to_read (N - tail_offset);
                   buf1 = memcpy buf read (data_buff s) tail_offset first_part;
                   buf2 = (if to_read > first_part
                           then memcpy buf1 (read + first_part) (data_buff s) 0 (to_read - first_part)
                           else buf1)
               in PopBatchLoop N buf2 count (read + to_read) (current_tail + of_nat to_read)
                    (s\<lparr>tail := current_tail + of_nat to_read\<rparr>)))
      else (read, buf, s))"
  by pat_completeness auto
termination
  apply (relation "measure (\<lambda>(N, buf, count, read, current_tail, s). count - read)")
   apply simp
  subgoal for N buf count read current_tail s
    using unat_gt_0 [of "head s - current_tail"] by (auto simp: min_def)
  done

declare PushBatchLoop.simps [simp del] PopBatchLoop.simps [simp del]

definition PopBatchCore ::
  "nat \<Rightarrow> ('i::len, 'a) ringbuffer \<Rightarrow> 'a list \<Rightarrow> nat \<Rightarrow> nat \<times> 'a list \<times> ('i, 'a) ringbuffer" where
  "PopBatchCore N s buf count = PopBatchLoop N buf count 0 (tail s) s"

definition PopBatch ::
  "nat \<Rightarrow> ('i::len, 'a) ringbuffer \<Rightarrow> 'a list \<Rightarrow> nat \<Rightarrow> nat \<times> 'a list \<times> ('i, 'a) ringbuffer" where
  "PopBatch N s buf count = PopBatchCore N s buf count"

definition Discard :: "('i::len, 'a) ringbuffer \<Rightarrow> nat \<Rightarrow> nat \<times> ('i, 'a) ringbuffer" where
  "Discard s count =
     (let current_tail = tail s;
          current_head = head s;
          available = current_head - current_tail;
          to_discard = min count (unat available)
      in (to_discard,
          if to_discard > 0 then s\<lparr>tail := current_tail + of_nat to_discard\<rparr> else s))"

text \<open>
  \<^verbatim>\<open>Peek\<close> and \<^verbatim>\<open>At\<close> return a pointer into \<^verbatim>\<open>data_buff_\<close> or \<^verbatim>\<open>nullptr\<close>: here the index
  of the slot pointed to, or \<open>None\<close>.
\<close>

definition Peek :: "nat \<Rightarrow> ('i::len, 'a) ringbuffer \<Rightarrow> nat option" where
  "Peek N s =
     (let current_tail = tail s;
          current_head = head s
      in if current_tail = current_head then None
         else Some (unat (current_tail AND kMask N)))"

text \<open>
  In \<^verbatim>\<open>(current_tail + index) & kMask\<close> the parameter \<open>index\<close> is a \<^verbatim>\<open>std::size_t\<close>, so the
  sum and the mask are computed in \<^verbatim>\<open>std::size_t\<close>.
\<close>

definition At :: "nat \<Rightarrow> ('i::len, 'a) ringbuffer \<Rightarrow> size_t \<Rightarrow> nat option" where
  "At N s index =
     (let current_tail = tail s;
          current_head = head s
      in if diff_le_index current_head current_tail index then None
         else Some (unat ((ucast current_tail + index) AND (ucast (kMask N :: 'i word) :: size_t))))"

definition ConsumerClear :: "('i::len, 'a) ringbuffer \<Rightarrow> ('i, 'a) ringbuffer" where
  "ConsumerClear s = s\<lparr>tail := head s\<rparr>"

subsection \<open>Query API\<close>

definition Size :: "('i::len, 'a) ringbuffer \<Rightarrow> 'i word" where
  "Size s = head s - tail s"

definition Available :: "nat \<Rightarrow> ('i::len, 'a) ringbuffer \<Rightarrow> 'i word" where
  "Available N s = BufferSize_minus_diff N (head s) (tail s)"

definition IsEmpty :: "('i::len, 'a) ringbuffer \<Rightarrow> bool" where
  "IsEmpty s \<longleftrightarrow> Size s = 0"

definition IsFull :: "nat \<Rightarrow> ('i::len, 'a) ringbuffer \<Rightarrow> bool" where
  "IsFull N s \<longleftrightarrow> Available N s = 0"

definition Capacity :: "nat \<Rightarrow> nat" where
  "Capacity N = N"

subsection \<open>The earlier class \<^verbatim>\<open>utility::Ringbuffer\<close>\<close>

text \<open>
  The repository also ships the header the \<^verbatim>\<open>spsc\<close> class was derived from, with the same
  state and the same index arithmetic. Embedded here are its \<^verbatim>\<open>InsertImpl\<close>, \<^verbatim>\<open>Remove(T*)\<close>,
  \<^verbatim>\<open>At\<close> and the two clear operations; its \<^verbatim>\<open>ProducerClear\<close> calls \<^verbatim>\<open>ConsumerClear\<close>. The
  \<^verbatim>\<open>atomic_thread_fence\<close> calls have no effect in a sequential model.
\<close>

definition utility_InsertImpl ::
  "nat \<Rightarrow> ('i::len, 'a) ringbuffer \<Rightarrow> 'a \<Rightarrow> bool \<times> ('i, 'a) ringbuffer" where
  "utility_InsertImpl N s data =
     (let current_head = head s;
          current_tail = tail s
      in if diff_eq_BufferSize N current_head current_tail then (False, s)
         else (True, s\<lparr>data_buff := (data_buff s)[unat (current_head AND kMask N) := data],
                        head := current_head + 1\<rparr>))"

definition utility_Insert ::
  "nat \<Rightarrow> ('i::len, 'a) ringbuffer \<Rightarrow> 'a \<Rightarrow> bool \<times> ('i, 'a) ringbuffer" where
  "utility_Insert N s data = utility_InsertImpl N s data"

definition utility_ConsumerClear :: "('i::len, 'a) ringbuffer \<Rightarrow> ('i, 'a) ringbuffer" where
  "utility_ConsumerClear s = s\<lparr>tail := head s\<rparr>"

definition utility_ProducerClear :: "('i::len, 'a) ringbuffer \<Rightarrow> ('i, 'a) ringbuffer" where
  "utility_ProducerClear s = utility_ConsumerClear s"

text \<open>\<^verbatim>\<open>bool Remove(T* data)\<close>, with \<open>data\<close> the value \<^verbatim>\<open>*data\<close> holds before the call.\<close>

definition utility_Remove ::
  "nat \<Rightarrow> ('i::len, 'a) ringbuffer \<Rightarrow> 'a \<Rightarrow> bool \<times> 'a \<times> ('i, 'a) ringbuffer" where
  "utility_Remove N s data =
     (let current_tail = tail s;
          current_head = head s
      in if current_tail = current_head then (False, data, s)
         else (True, data_buff s ! unat (current_tail AND kMask N), s\<lparr>tail := current_tail + 1\<rparr>))"

definition utility_At :: "nat \<Rightarrow> ('i::len, 'a) ringbuffer \<Rightarrow> size_t \<Rightarrow> nat option" where
  "utility_At N s index =
     (let current_tail = tail s;
          current_head = head s
      in if diff_le_index current_head current_tail index then None
         else Some (unat ((ucast current_tail + index) AND (ucast (kMask N :: 'i word) :: size_t))))"

subsection \<open>Sequences of operations\<close>

text \<open>
  One producer pushing and one consumer popping, in any order. The run returns the values
  of the successful pushes, the values the successful pops returned, and the final state;
  \<open>data\<close> is the consumer's variable that \<^verbatim>\<open>Pop\<close> assigns to.
\<close>

datatype 'a spsc_op = ProducerPush 'a | ConsumerPop

fun spsc_run ::
  "nat \<Rightarrow> ('i::len, 'a) ringbuffer \<Rightarrow> 'a \<Rightarrow> 'a spsc_op list
     \<Rightarrow> 'a list \<times> 'a list \<times> ('i, 'a) ringbuffer" where
  "spsc_run N s data [] = ([], [], s)"
| "spsc_run N s data (ProducerPush v # ops) =
     (case Push N s v of
        (ok, s') \<Rightarrow>
          (case spsc_run N s' data ops of
             (pushed, popped, s'') \<Rightarrow> ((if ok then [v] else []) @ pushed, popped, s'')))"
| "spsc_run N s data (ConsumerPop # ops) =
     (case Pop N s data of
        (ok, data', s') \<Rightarrow>
          (case spsc_run N s' data' ops of
             (pushed, popped, s'') \<Rightarrow> (pushed, (if ok then [data'] else []) @ popped, s'')))"

text \<open>\<open>k\<close> cycles of one \<^verbatim>\<open>Push\<close> immediately followed by one \<^verbatim>\<open>Pop\<close>.\<close>

definition cycles :: "'a list \<Rightarrow> 'a spsc_op list" where
  "cycles vs = concat (map (\<lambda>v. [ProducerPush v, ConsumerPop]) vs)"

text \<open>
  The operations that write a counter, with their arguments: the callable of
  \<^verbatim>\<open>PushFromCallback\<close> by the value it returns, a batch by the caller's array (its length
  is the count), \<^verbatim>\<open>Pop\<close> by the previous value of the caller's variable.
\<close>

datatype 'a operation =
    OpPush 'a
  | OpPushFromCallback 'a
  | OpPushBatch "'a list"
  | OpProducerClear
  | OpPop 'a
  | OpPopBatch "'a list"
  | OpDiscard nat
  | OpConsumerClear

fun step :: "nat \<Rightarrow> ('i::len, 'a) ringbuffer \<Rightarrow> 'a operation \<Rightarrow> ('i, 'a) ringbuffer" where
  "step N s (OpPush v) = snd (Push N s v)"
| "step N s (OpPushFromCallback v) = fst (snd (PushFromCallback N s (\<lambda>c. (v, c)) ()))"
| "step N s (OpPushBatch buf) = snd (PushBatch N s buf (length buf))"
| "step N s OpProducerClear = ProducerClear s"
| "step N s (OpPop data) = snd (snd (Pop N s data))"
| "step N s (OpPopBatch buf) = snd (snd (PopBatch N s buf (length buf)))"
| "step N s (OpDiscard count) = snd (Discard s count)"
| "step N s OpConsumerClear = ConsumerClear s"

definition run_ops :: "nat \<Rightarrow> ('i::len, 'a) ringbuffer \<Rightarrow> 'a operation list \<Rightarrow> ('i, 'a) ringbuffer" where
  "run_ops N s ops = foldl (step N) s ops"

text \<open>
  The number of elements an operation transfers: what a push adds to the buffer (1 for a
  call that returns true, the count a batch returns) and what a consumer operation takes
  from it (likewise; the count \<^verbatim>\<open>Discard\<close> returns; \<^verbatim>\<open>Size()\<close> for \<^verbatim>\<open>ConsumerClear\<close>, which
  drops every element).
\<close>

definition elements_pushed :: "nat \<Rightarrow> ('i::len, 'a) ringbuffer \<Rightarrow> 'a operation \<Rightarrow> nat" where
  "elements_pushed N s op =
     (case op of
        OpPush v \<Rightarrow> (if fst (Push N s v) then 1 else 0)
      | OpPushFromCallback v \<Rightarrow> (if fst (PushFromCallback N s (\<lambda>c. (v, c)) ()) then 1 else 0)
      | OpPushBatch buf \<Rightarrow> fst (PushBatch N s buf (length buf))
      | _ \<Rightarrow> 0)"

definition elements_popped :: "nat \<Rightarrow> ('i::len, 'a) ringbuffer \<Rightarrow> 'a operation \<Rightarrow> nat" where
  "elements_popped N s op =
     (case op of
        OpPop data \<Rightarrow> (if fst (Pop N s data) then 1 else 0)
      | OpPopBatch buf \<Rightarrow> fst (PopBatch N s buf (length buf))
      | OpDiscard count \<Rightarrow> fst (Discard s count)
      | OpConsumerClear \<Rightarrow> unat (Size s)
      | _ \<Rightarrow> 0)"

subsection \<open>One iteration of a batch loop\<close>

text \<open>
  The two \<^verbatim>\<open>memcpy\<close> calls of one iteration of \<^verbatim>\<open>PushBatchCore\<close>, as a function of the slot
  array, \<^verbatim>\<open>head_offset\<close>, the caller's array, \<^verbatim>\<open>written\<close> and \<^verbatim>\<open>to_write\<close>; and those of
  one iteration of \<^verbatim>\<open>PopBatchCore\<close>, as a function of the caller's array, \<^verbatim>\<open>read\<close>, the slot
  array, \<^verbatim>\<open>tail_offset\<close> and \<^verbatim>\<open>to_read\<close>. The loops above contain them literally.
\<close>

definition two_run_write :: "nat \<Rightarrow> 'a list \<Rightarrow> nat \<Rightarrow> 'a list \<Rightarrow> nat \<Rightarrow> nat \<Rightarrow> 'a list" where
  "two_run_write N buff off src w k =
     (let first_part = min k (N - off);
          buff1 = memcpy buff off src w first_part
      in if k > first_part then memcpy buff1 0 src (w + first_part) (k - first_part) else buff1)"

definition two_run_read :: "nat \<Rightarrow> 'a list \<Rightarrow> nat \<Rightarrow> 'a list \<Rightarrow> nat \<Rightarrow> nat \<Rightarrow> 'a list" where
  "two_run_read N buf r buff off k =
     (let first_part = min k (N - off);
          buf1 = memcpy buf r buff off first_part
      in if k > first_part then memcpy buf1 (r + first_part) buff 0 (k - first_part) else buf1)"

subsection \<open>Logical state\<close>

text \<open>
  The elements the buffer holds, oldest first: the slots of the counters \<open>tail\<close>,
  \<open>tail + 1\<close>, \<dots>, \<open>head - 1\<close>, that is \<open>head - tail\<close> of them. The structural invariant
  says that the array has \<open>N\<close> slots and that \<open>head - tail\<close>, computed in \<^verbatim>\<open>IndexT\<close>, is at
  most \<open>N\<close>.
\<close>

definition logical_state :: "nat \<Rightarrow> ('i::len, 'a) ringbuffer \<Rightarrow> 'a list" where
  "logical_state N s =
     map (\<lambda>j. data_buff s ! unat ((tail s + of_nat j) AND kMask N)) [0..<unat (head s - tail s)]"

definition rb_inv :: "nat \<Rightarrow> ('i::len, 'a) ringbuffer \<Rightarrow> bool" where
  "rb_inv N s \<longleftrightarrow> length (data_buff s) = N \<and> unat (head s - tail s) \<le> N"

section \<open>Properties\<close>

subsection \<open>Parameters and index arithmetic\<close>

lemma pow2_of_and_nat:
  fixes N :: nat
  assumes "N \<noteq> 0" "N AND (N - 1) = 0"
  shows "\<exists>m. N = 2 ^ m"
  using assms
proof (induction N rule: less_induct)
  case (less N)
  have rec: "N AND (N - 1) = of_bool (odd N \<and> odd (N - 1)) + 2 * ((N div 2) AND ((N - 1) div 2))"
    by (rule and_rec)
  show ?case
  proof (cases "even N")
    case True
    with less.prems have pos: "N div 2 \<noteq> 0" by auto
    have "(N - 1) div 2 = N div 2 - 1"
      using True less.prems(1) by (auto elim!: evenE)
    with rec less.prems(2) True have "(N div 2) AND (N div 2 - 1) = 0"
      by simp
    moreover have "N div 2 < N" using less.prems(1) by simp
    ultimately obtain m where "N div 2 = 2 ^ m"
      using less.IH pos by blast
    with True have "N = 2 ^ Suc m" by auto
    then show ?thesis by blast
  next
    case False
    then have "(N - 1) div 2 = N div 2"
      by (auto elim!: oddE)
    with rec less.prems(2) False have "N div 2 = 0"
      by simp
    with False have "N = 2 ^ 0"
      by (auto elim!: oddE)
    then show ?thesis by blast
  qed
qed

lemma static_asserts_twice_less:
  assumes "static_asserts TYPE('i::len) N"
  shows "2 * N < 2 ^ LENGTH('i)"
proof -
  from assms have "N \<le> (2 ^ LENGTH('i) - 1) div 2"
    by (simp add: static_asserts_def drop_bit_eq_div)
  then have "2 * N \<le> 2 ^ LENGTH('i) - 1"
    by simp
  moreover have "(0::nat) < 2 ^ LENGTH('i)"
    by simp
  ultimately show ?thesis
    by linarith
qed

lemma static_asserts_pos: "static_asserts TYPE('i::len) N \<Longrightarrow> 0 < N"
  by (simp add: static_asserts_def)

lemma static_asserts_less: "static_asserts TYPE('i::len) N \<Longrightarrow> N < 2 ^ LENGTH('i)"
  using static_asserts_twice_less [of N, where 'i = 'i] by simp

lemma static_asserts_pow2:
  assumes "static_asserts TYPE('i::len) N"
  shows "\<exists>m. N = 2 ^ m \<and> m < LENGTH('i)"
proof -
  from assms obtain m where m: "N = 2 ^ m"
    using pow2_of_and_nat [of N] by (auto simp: static_asserts_def)
  with static_asserts_less [OF assms] have "m < LENGTH('i)"
    by simp
  with m show ?thesis by blast
qed

lemma unat_of_nat_BufferSize:
  "static_asserts TYPE('i::len) N \<Longrightarrow> unat (of_nat N :: 'i word) = N"
  by (simp add: unat_of_nat static_asserts_less)

lemma unat_and_kMask:
  assumes "static_asserts TYPE('i::len) N"
  shows "unat ((x :: 'i word) AND kMask N) = unat x mod N"
proof -
  from static_asserts_pow2 [OF assms] obtain m where m: "N = 2 ^ m" "m < LENGTH('i)"
    by blast
  have "(kMask N :: 'i word) = mask m"
    by (simp add: kMask_def m mask_eq_decr_exp)
  then have "unat (x AND kMask N) = unat (take_bit m x)"
    by (simp add: take_bit_eq_mask)
  also have "\<dots> = unat x mod 2 ^ m"
    by (metis unsigned_take_bit_eq take_bit_eq_mod)
  finally show ?thesis
    by (simp add: m)
qed

lemma unat_and_kMask_less:
  "static_asserts TYPE('i::len) N \<Longrightarrow> unat ((x :: 'i word) AND kMask N) < N"
  by (simp add: unat_and_kMask static_asserts_pos)

lemma ucast_down_wi':
  "LENGTH('b::len) \<le> LENGTH('a::len) \<Longrightarrow> (ucast (word_of_int k :: 'a word) :: 'b word) = word_of_int k"
  by (simp add: ucast_down_wi is_down)

lemma ucast_down_minus:
  assumes "LENGTH('b::len) \<le> LENGTH('a::len)"
  shows "(ucast (x - y :: 'a word) :: 'b word) = ucast x - ucast y"
proof -
  have "(ucast (x - y) :: 'b word) = ucast (word_of_int (uint x - uint y) :: 'a word)"
    by (simp only: word_sub_wi [symmetric])
  also have "\<dots> = word_of_int (uint x - uint y)"
    using assms by (rule ucast_down_wi')
  finally show ?thesis
    by simp
qed

lemma ucast_down_of_nat:
  "LENGTH('b::len) \<le> LENGTH('a::len) \<Longrightarrow> (ucast (of_nat n :: 'a word) :: 'b word) = of_nat n"
  by (metis is_down of_int_of_nat_eq ucast_down_wi)

lemma ucast_diff_size_t:
  assumes "LENGTH('i::len) \<le> 64"
  shows "(ucast (diff_size_t (a :: 'i word) b) :: 'i word) = a - b"
  using assms by (simp add: diff_size_t_def ucast_down_minus ucast_up_ucast_id is_up)

lemma BufferSize_minus_diff_eq:
  assumes "LENGTH('i::len) \<le> 64"
  shows "BufferSize_minus_diff N (h :: 'i word) t = of_nat N - (h - t)"
  using assms
  by (simp add: BufferSize_minus_diff_def ucast_down_minus ucast_down_of_nat ucast_diff_size_t)

lemma diff_eq_BufferSize_wide:
  assumes "static_asserts TYPE('i::len) N" "32 \<le> LENGTH('i)"
  shows "diff_eq_BufferSize N (h :: 'i word) t \<longleftrightarrow> h - t = of_nat N"
proof -
  from assms(1) have le: "LENGTH('i) \<le> 64"
    by (simp add: static_asserts_def)
  have up: "(ucast (of_nat N :: 'i word) :: size_t) = of_nat N"
    by (metis of_nat_unat assms(1) unat_of_nat_BufferSize)
  show ?thesis
  proof
    assume "diff_eq_BufferSize N h t"
    then have "(ucast (diff_size_t h t) :: 'i word) = ucast (of_nat N :: size_t)"
      by (simp add: diff_eq_BufferSize_def)
    then show "h - t = of_nat N"
      using le by (simp add: ucast_diff_size_t ucast_down_of_nat)
  next
    assume "h - t = of_nat N"
    then show "diff_eq_BufferSize N h t"
      using assms(2) up by (simp add: diff_eq_BufferSize_def diff_size_t_def)
  qed
qed

lemma diff_eq_BufferSize_narrow:
  assumes "static_asserts TYPE('i::len) N" "LENGTH('i) < 32"
  shows "diff_eq_BufferSize N (h :: 'i word) t \<longleftrightarrow> uint h - uint t = int N"
proof -
  let ?k = "uint h - uint t"
  have "(2::int) ^ LENGTH('i) \<le> 2 ^ 32"
    using assms(2) by (intro power_increasing) simp_all
  then have w: "(2::int) ^ LENGTH('i) \<le> 4294967296"
    by simp
  have lo: "- 4294967296 < ?k" and hi: "?k < 4294967296"
    using uint_lt2p [of h] uint_lt2p [of t] uint_ge_0 [of h] uint_ge_0 [of t] w by linarith+
  have "int N < 2 ^ LENGTH('i)"
    using static_asserts_less [OF assms(1)] by (metis of_nat_less_numeral_power_cancel_iff)
  with w have bN: "int N < 4294967296"
    by linarith
  have "(of_nat N :: size_t) = word_of_int (int N)"
    by simp
  then have "diff_eq_BufferSize N h t \<longleftrightarrow> (word_of_int ?k :: size_t) = word_of_int (int N)"
    using assms(2) by (simp only: diff_eq_BufferSize_def diff_size_t_def if_True)
  also have "\<dots> \<longleftrightarrow> take_bit 64 ?k = take_bit 64 (int N)"
    by (simp only: word_of_int_eq_iff) simp
  also have "take_bit 64 (int N) = int N"
    using bN by (simp add: take_bit_int_eq_self)
  also have "take_bit 64 ?k = int N \<longleftrightarrow> ?k = int N"
  proof (cases "0 \<le> ?k")
    case True
    moreover have "?k < 2 ^ 64"
      using hi by simp
    ultimately show ?thesis
      by (simp add: take_bit_int_eq_self)
  next
    case False
    have "take_bit 64 ?k = ?k mod 2 ^ 64"
      by (simp add: take_bit_eq_mod)
    also have "\<dots> = (?k + 2 ^ 64) mod 2 ^ 64"
      by (simp only: mod_add_self2)
    also have "\<dots> = ?k + 2 ^ 64"
      using False lo by (intro mod_pos_pos_trivial) simp_all
    finally show ?thesis
      using False bN lo by simp
  qed
  finally show ?thesis .
qed

subsection \<open>Copies, slots and the batch loops\<close>

lemma length_memcpy [simp]: "length (memcpy dst d src s n) = length dst"
  by (induction n arbitrary: dst d s) simp_all

lemma nth_memcpy:
  "d + n \<le> length dst \<Longrightarrow> i < length dst \<Longrightarrow>
   memcpy dst d src s n ! i = (if d \<le> i \<and> i < d + n then src ! (s + (i - d)) else dst ! i)"
proof (induction n arbitrary: dst d s)
  case 0
  then show ?case by auto
next
  case (Suc n)
  have shift: "Suc s + (i - Suc d) = s + (i - d)" if "Suc d \<le> i"
    using that by arith
  have "memcpy dst d src s (Suc n) ! i = memcpy (dst[d := src ! s]) (Suc d) src (Suc s) n ! i"
    by simp
  also have "\<dots> = (if Suc d \<le> i \<and> i < Suc d + n then src ! (Suc s + (i - Suc d))
                     else dst[d := src ! s] ! i)"
    using Suc.IH [of "Suc d" "dst[d := src ! s]" "Suc s"] Suc.prems by simp
  also have "\<dots> = (if d \<le> i \<and> i < d + Suc n then src ! (s + (i - d)) else dst ! i)"
    using Suc.prems shift by (cases "i = d") (auto simp: nth_list_update)
  finally show ?case .
qed

text \<open>Distinct counters less than \<open>N\<close> apart use distinct slots.\<close>

lemma mod_neq_of_close:
  fixes a b N :: nat
  assumes "a < b" "b - a < N"
  shows "a mod N \<noteq> b mod N"
proof
  assume "a mod N = b mod N"
  with assms(1) have "N dvd b - a"
    using mod_eq_dvd_iff_nat [of a b N] by simp
  with assms show False
    by (auto dest: dvd_imp_le)
qed

lemma unat_add_of_nat_mod:
  assumes "static_asserts TYPE('i::len) N"
  shows "unat ((t :: 'i word) + of_nat j) mod N = (unat t + j) mod N"
proof -
  from static_asserts_pow2 [OF assms] obtain m where m: "N = 2 ^ m" "m < LENGTH('i)"
    by blast
  then have dvd: "N dvd 2 ^ LENGTH('i)"
    by (simp add: le_imp_power_dvd)
  have "unat (t + of_nat j) = (unat t + j mod 2 ^ LENGTH('i)) mod 2 ^ LENGTH('i)"
    by (simp add: unat_word_ariths unat_of_nat)
  also have "\<dots> = (unat t + j) mod 2 ^ LENGTH('i)"
    by (simp add: mod_add_right_eq)
  finally show ?thesis
    using dvd by (simp add: mod_mod_cancel)
qed

lemma slot_add:
  assumes "static_asserts TYPE('i::len) N"
  shows "unat (((t :: 'i word) + of_nat j) AND kMask N) = (unat t + j) mod N"
  by (simp add: unat_and_kMask [OF assms] unat_add_of_nat_mod [OF assms])

lemma two_run_write_nth:
  assumes "length buff = N" "off < N" "k \<le> N" "j < N"
  shows "two_run_write N buff off src w k ! ((off + j) mod N) =
           (if j < k then src ! (w + j) else buff ! ((off + j) mod N))"
proof (cases "off + j < N")
  case True
  then have idx: "(off + j) mod N = off + j"
    by simp
  show ?thesis
    unfolding idx using assms True
    by (auto simp: two_run_write_def Let_def nth_memcpy min_def)
next
  case False
  with assms have idx: "(off + j) mod N = off + j - N"
    by (simp add: mod_if)
  show ?thesis
    unfolding idx using assms False
    by (auto simp: two_run_write_def Let_def nth_memcpy min_def intro!: arg_cong [where f = "(!) src"])
qed

lemma length_two_run_write [simp]: "length (two_run_write N buff off src w k) = length buff"
  by (simp add: two_run_write_def Let_def)

lemma length_two_run_read [simp]: "length (two_run_read N buf r buff off k) = length buf"
  by (simp add: two_run_read_def Let_def)

lemma two_run_read_nth:
  assumes "r + k \<le> length buf" "off < N" "k \<le> N" "i < length buf"
  shows "two_run_read N buf r buff off k ! i =
           (if r \<le> i \<and> i < r + k then buff ! ((off + (i - r)) mod N) else buf ! i)"
proof (cases "off + (i - r) < N")
  case True
  then have idx: "(off + (i - r)) mod N = off + (i - r)"
    by simp
  show ?thesis
    unfolding idx using assms True
    by (auto simp: two_run_read_def Let_def nth_memcpy min_def)
next
  case False
  show ?thesis
  proof (cases "r \<le> i \<and> i < r + k")
    case True
    with assms False have "off + (i - r) - N < N" "N \<le> off + (i - r)"
      by auto
    then have idx: "(off + (i - r)) mod N = off + (i - r) - N"
      by (simp add: le_mod_geq)
    from True False assms have first: "min k (N - off) = N - off" "N - off < k"
      by (auto simp: min_def)
    have "two_run_read N buf r buff off k ! i =
            memcpy (memcpy buf r buff off (N - off)) (r + (N - off)) buff 0 (k - (N - off)) ! i"
      by (simp add: two_run_read_def Let_def first)
    also have "\<dots> = buff ! (0 + (i - (r + (N - off))))"
    proof (subst nth_memcpy)
      show "r + (N - off) + (k - (N - off)) \<le> length (memcpy buf r buff off (N - off))"
        using assms first by simp
      show "i < length (memcpy buf r buff off (N - off))"
        using assms by simp
      show "(if r + (N - off) \<le> i \<and> i < r + (N - off) + (k - (N - off))
             then buff ! (0 + (i - (r + (N - off))))
             else memcpy buf r buff off (N - off) ! i) = buff ! (0 + (i - (r + (N - off))))"
        using True False assms first by auto
    qed
    finally have "two_run_read N buf r buff off k ! i = buff ! (i - (r + (N - off)))"
      by simp
    moreover from True False assms have "i - (r + (N - off)) = off + (i - r) - N"
      by auto
    ultimately have "two_run_read N buf r buff off k ! i = buff ! ((off + (i - r)) mod N)"
      by (simp only: idx)
    with True show ?thesis
      by (simp only: simp_thms if_True)
  next
    case False
    then show ?thesis
      using assms
      by (auto simp: two_run_read_def Let_def nth_memcpy min_def)
  qed
qed

lemma PushBatchLoop_unfold:
  "PushBatchLoop N buf count written h s =
     (if written < count then
        (if BufferSize_minus_diff N h (tail s) = 0 then (written, s)
         else PushBatchLoop N buf count
                (written + min (count - written) (unat (BufferSize_minus_diff N h (tail s))))
                (h + of_nat (min (count - written) (unat (BufferSize_minus_diff N h (tail s)))))
                (s\<lparr>data_buff := two_run_write N (data_buff s) (unat (h AND kMask N)) buf written
                                   (min (count - written) (unat (BufferSize_minus_diff N h (tail s)))),
                   head := h + of_nat (min (count - written) (unat (BufferSize_minus_diff N h (tail s))))\<rparr>))
      else (written, s))"
  by (subst PushBatchLoop.simps) (simp only: two_run_write_def Let_def)

lemma PopBatchLoop_unfold:
  "PopBatchLoop N buf count read t s =
     (if read < count then
        (if head s - t = 0 then (read, buf, s)
         else PopBatchLoop N
                (two_run_read N buf read (data_buff s) (unat (t AND kMask N))
                   (min (count - read) (unat (head s - t))))
                count
                (read + min (count - read) (unat (head s - t)))
                (t + of_nat (min (count - read) (unat (head s - t))))
                (s\<lparr>tail := t + of_nat (min (count - read) (unat (head s - t)))\<rparr>))
      else (read, buf, s))"
  by (subst PopBatchLoop.simps) (simp only: two_run_read_def Let_def)

lemma static_asserts_len: "static_asserts TYPE('i::len) N \<Longrightarrow> LENGTH('i) \<le> 64"
  by (simp add: static_asserts_def)

lemma unat_of_nat_le_BufferSize:
  assumes "static_asserts TYPE('i::len) N" "k \<le> N"
  shows "unat (of_nat k :: 'i word) = k"
  using static_asserts_less [OF assms(1)] assms(2) by (simp add: unat_of_nat)

lemma unat_space:
  assumes "static_asserts TYPE('i::len) N" "unat ((h :: 'i word) - t) \<le> N"
  shows "unat (BufferSize_minus_diff N h t) = N - unat (h - t)"
proof -
  have "h - t \<le> of_nat N"
    using assms by (simp add: word_le_nat_alt unat_of_nat_BufferSize)
  then have "unat ((of_nat N :: 'i word) - (h - t)) = unat (of_nat N :: 'i word) - unat (h - t)"
    by (rule unat_sub)
  then show ?thesis
    using assms by (simp add: BufferSize_minus_diff_eq static_asserts_len unat_of_nat_BufferSize)
qed

lemma unat_advance:
  assumes "static_asserts TYPE('i::len) N" "unat ((h :: 'i word) - t) + k \<le> N"
  shows "unat ((h + of_nat k) - t) = unat (h - t) + k"
proof -
  from assms(2) have "k \<le> N"
    by arith
  with assms(1) have k: "unat (of_nat k :: 'i word) = k"
    by (rule unat_of_nat_le_BufferSize)
  have "unat (h - t) + unat (of_nat k :: 'i word) < 2 ^ LENGTH('i)"
    using assms static_asserts_less [OF assms(1)] by (simp add: k)
  then have "unat ((h - t) + of_nat k) = unat (h - t) + unat (of_nat k :: 'i word)"
    by (simp only: unat_add_lem)
  moreover have "(h + of_nat k) - t = (h - t) + of_nat k"
    by simp
  ultimately show ?thesis
    by (simp only: k)
qed

lemma two_run_write_0 [simp]: "two_run_write N buff off src w 0 = buff"
  by (simp add: two_run_write_def)

lemma two_run_read_0 [simp]: "two_run_read N buf r buff off 0 = buf"
  by (simp add: two_run_read_def)

lemma PushBatchCore_result:
  fixes s :: "('i::len, 'a) ringbuffer" and count N :: nat
  assumes sa: "static_asserts TYPE('i) N" and inv: "unat (head s - tail s) \<le> N"
  defines "k \<equiv> min count (N - unat (head s - tail s))"
  shows "PushBatchCore N s buf count =
           (k, s\<lparr>data_buff := two_run_write N (data_buff s) (unat (head s AND kMask N)) buf 0 k,
                   head := head s + of_nat k\<rparr>)"
proof (cases "k = 0")
  case True
  then have "count = 0 \<or> BufferSize_minus_diff N (head s) (tail s) = 0"
    using unat_space [OF sa inv] by (auto simp: k_def min_def unat_eq_0 split: if_splits)
  then have "PushBatchCore N s buf count = (0, s)"
    unfolding PushBatchCore_def by (subst PushBatchLoop_unfold) auto
  with True show ?thesis
    by simp
next
  case False
  let ?s1 = "s\<lparr>data_buff := two_run_write N (data_buff s) (unat (head s AND kMask N)) buf 0 k,
                head := head s + of_nat k\<rparr>"
  from False have pos: "0 < count" and space: "BufferSize_minus_diff N (head s) (tail s) \<noteq> 0"
    using unat_space [OF sa inv] by (auto simp: k_def min_def split: if_splits)
  have tw: "min (count - 0) (unat (BufferSize_minus_diff N (head s) (tail s))) = k"
    by (simp add: k_def unat_space [OF sa inv])
  have first: "PushBatchCore N s buf count = PushBatchLoop N buf count k (head s + of_nat k) ?s1"
    unfolding PushBatchCore_def
    by (subst PushBatchLoop_unfold) (simp only: pos space tw if_True if_False add_0)
  have "PushBatchLoop N buf count k (head s + of_nat k) ?s1 = (k, ?s1)"
  proof (cases "k < count")
    case True
    then have keq: "k = N - unat (head s - tail s)"
      by (simp add: k_def min_def split: if_splits)
    then have "unat ((head s + of_nat k) - tail s) = N"
      using unat_advance [OF sa, of "head s" "tail s" k] inv by simp
    then have "unat (BufferSize_minus_diff N (head s + of_nat k) (tail s)) = 0"
      using unat_space [OF sa, of "head s + of_nat k" "tail s"] by simp
    then have "BufferSize_minus_diff N (head s + of_nat k) (tail ?s1) = 0"
      by (simp add: unat_eq_0)
    then show ?thesis
      by (subst PushBatchLoop_unfold) (simp add: True)
  next
    case False
    then show ?thesis
      by (subst PushBatchLoop_unfold) simp
  qed
  with first show ?thesis
    by simp
qed

lemma PopBatchCore_result:
  fixes s :: "('i::len, 'a) ringbuffer" and count N :: nat
  defines "k \<equiv> min count (unat (head s - tail s))"
  shows "PopBatchCore N s buf count =
           (k, two_run_read N buf 0 (data_buff s) (unat (tail s AND kMask N)) k,
            s\<lparr>tail := tail s + of_nat k\<rparr>)"
proof (cases "k = 0")
  case True
  then have "count = 0 \<or> head s - tail s = 0"
    by (auto simp: k_def min_def unat_eq_0 split: if_splits)
  then have "PopBatchCore N s buf count = (0, buf, s)"
    unfolding PopBatchCore_def by (subst PopBatchLoop_unfold) auto
  with True show ?thesis
    by simp
next
  case False
  let ?buf1 = "two_run_read N buf 0 (data_buff s) (unat (tail s AND kMask N)) k"
  let ?s1 = "s\<lparr>tail := tail s + of_nat k\<rparr>"
  from False have pos: "0 < count" and avail: "head s - tail s \<noteq> 0"
    by (auto simp: k_def min_def split: if_splits)
  have tr: "min (count - 0) (unat (head s - tail s)) = k"
    by (simp add: k_def)
  have first: "PopBatchCore N s buf count = PopBatchLoop N ?buf1 count k (tail s + of_nat k) ?s1"
    unfolding PopBatchCore_def
    by (subst PopBatchLoop_unfold) (simp only: pos avail tr if_True if_False add_0)
  have "PopBatchLoop N ?buf1 count k (tail s + of_nat k) ?s1 = (k, ?buf1, ?s1)"
  proof (cases "k < count")
    case True
    then have "k = unat (head s - tail s)"
      by (simp add: k_def min_def split: if_splits)
    then have "head ?s1 - (tail s + of_nat k) = 0"
      by simp
    then show ?thesis
      by (subst PopBatchLoop_unfold) (simp add: True)
  next
    case False
    then show ?thesis
      by (subst PopBatchLoop_unfold) simp
  qed
  with first show ?thesis
    by simp
qed

lemma length_logical_state [simp]: "length (logical_state N s) = unat (head s - tail s)"
  by (simp add: logical_state_def)

lemma logical_state_nth:
  assumes "static_asserts TYPE('i::len) N" "j < unat (head s - tail s)"
  shows "logical_state N (s :: ('i, 'a) ringbuffer) ! j = data_buff s ! ((unat (tail s) + j) mod N)"
  using assms by (simp add: logical_state_def slot_add)

lemma head_slot:
  assumes "static_asserts TYPE('i::len) N"
  shows "unat (h :: 'i word) mod N = (unat t + unat (h - t)) mod N"
proof -
  have "t + of_nat (unat (h - t)) = h"
    by simp
  then show ?thesis
    using unat_add_of_nat_mod [OF assms, of t "unat (h - t)"] by simp
qed

lemma PushBatchCore_logical_state:
  fixes s :: "('i::len, 'a) ringbuffer"
  assumes sa: "static_asserts TYPE('i) N" and inv: "rb_inv N s" and len: "count \<le> length buf"
    and res: "PushBatchCore N s buf count = (k, s')"
  shows "k = min count (N - unat (head s - tail s))"
    and "rb_inv N s'"
    and "tail s' = tail s"
    and "head s' = head s + of_nat k"
    and "logical_state N s' = logical_state N s @ take k buf"
proof -
  let ?size = "unat (head s - tail s)"
  let ?off = "unat (head s) mod N"
  from inv have size: "?size \<le> N" and dlen: "length (data_buff s) = N"
    by (simp_all add: rb_inv_def)
  from res PushBatchCore_result [OF sa size, of buf count]
  have k: "k = min count (N - ?size)"
    and s': "s' = s\<lparr>data_buff := two_run_write N (data_buff s) (unat (head s AND kMask N)) buf 0 k,
                       head := head s + of_nat k\<rparr>"
    by auto
  show "k = min count (N - ?size)"
    by (rule k)
  from s' show "tail s' = tail s" "head s' = head s + of_nat k"
    by simp_all
  from k size have kN: "?size + k \<le> N"
    by simp
  have size': "unat (head s' - tail s') = ?size + k"
    using unat_advance [OF sa kN] by (simp add: s')
  with kN dlen show "rb_inv N s'"
    by (simp add: rb_inv_def s')
  have Npos: "0 < N"
    by (rule static_asserts_pos [OF sa])
  have off: "?off < N"
    using Npos by simp
  have data': "data_buff s' = two_run_write N (data_buff s) ?off buf 0 k"
    by (simp add: s' unat_and_kMask [OF sa])
  have kle: "k \<le> N" "k \<le> length buf"
    using kN k len by simp_all
  show "logical_state N s' = logical_state N s @ take k buf"
  proof (rule nth_equalityI)
    show "length (logical_state N s') = length (logical_state N s @ take k buf)"
      using size' kle by simp
  next
    fix j
    assume "j < length (logical_state N s')"
    then have j: "j < ?size + k"
      by (simp add: size')
    have lhs: "logical_state N s' ! j = data_buff s' ! ((unat (tail s) + j) mod N)"
      using logical_state_nth [OF sa, of j s'] j size' by (simp add: s')
    show "logical_state N s' ! j = (logical_state N s @ take k buf) ! j"
    proof (cases "j < ?size")
      case True
      let ?r = "j + N - ?size"
      from True kN have r: "?r < N" "\<not> ?r < k"
        by simp_all
      have "(unat (tail s) + j) mod N = (unat (tail s) + ?size + ?r) mod N"
        using True size by (simp add: algebra_simps)
      also have "\<dots> = (?off + ?r) mod N"
        by (simp add: head_slot [OF sa, of "head s" "tail s"] mod_add_left_eq)
      finally have idx: "(unat (tail s) + j) mod N = (?off + ?r) mod N" .
      have "data_buff s' ! ((?off + ?r) mod N) = data_buff s ! ((?off + ?r) mod N)"
        unfolding data' using two_run_write_nth [OF dlen off kle(1) r(1), of buf 0] r(2) by simp
      with True show ?thesis
        by (simp add: lhs idx [symmetric] nth_append logical_state_nth [OF sa])
    next
      case False
      let ?i = "j - ?size"
      from False j have i: "?i < k" "j = ?size + ?i"
        by simp_all
      have "(unat (tail s) + j) mod N = (unat (tail s) + ?size + ?i) mod N"
        using False by simp
      also have "\<dots> = (?off + ?i) mod N"
        by (simp add: head_slot [OF sa, of "head s" "tail s"] mod_add_left_eq)
      finally have idx: "(unat (tail s) + j) mod N = (?off + ?i) mod N" .
      from i kle have iN: "?i < N"
        by simp
      have "data_buff s' ! ((?off + ?i) mod N) = buf ! ?i"
        unfolding data' using two_run_write_nth [OF dlen off kle(1) iN, of buf 0] i(1) by simp
      with False i kle show ?thesis
        by (simp add: lhs idx nth_append)
    qed
  qed
qed

lemma logical_state_drop:
  fixes s :: "('i::len, 'a) ringbuffer"
  assumes "k \<le> unat (head s - tail s)"
  shows "logical_state N (s\<lparr>tail := tail s + of_nat k\<rparr>) = drop k (logical_state N s)"
proof -
  let ?size = "unat (head s - tail s)"
  have "head s - (tail s + of_nat k) = (head s - tail s) - of_nat k"
    by simp
  moreover have "(of_nat k :: 'i word) \<le> head s - tail s"
    using assms by (metis le_unat_uoi word_le_nat_alt)
  moreover have "unat (of_nat k :: 'i word) = k"
    using assms by (rule le_unat_uoi)
  ultimately have size': "unat (head s - (tail s + of_nat k)) = ?size - k"
    by (simp only: unat_sub)
  show ?thesis
  proof (rule nth_equalityI)
    show "length (logical_state N (s\<lparr>tail := tail s + of_nat k\<rparr>)) = length (drop k (logical_state N s))"
      by (simp add: size')
  next
    fix j
    assume "j < length (logical_state N (s\<lparr>tail := tail s + of_nat k\<rparr>))"
    then have "j < ?size - k"
      by (simp add: size')
    moreover from this assms have "k + j < ?size"
      by simp
    ultimately have "logical_state N (s\<lparr>tail := tail s + of_nat k\<rparr>) ! j =
                 data_buff s ! unat ((tail s + of_nat k + of_nat j) AND kMask N)"
      and "drop k (logical_state N s) ! j =
             data_buff s ! unat ((tail s + of_nat (k + j)) AND kMask N)"
      using assms by (simp_all add: logical_state_def size')
    then show "logical_state N (s\<lparr>tail := tail s + of_nat k\<rparr>) ! j = drop k (logical_state N s) ! j"
      by (simp add: add.assoc)
  qed
qed

lemma PopBatchCore_logical_state:
  fixes s :: "('i::len, 'a) ringbuffer"
  assumes sa: "static_asserts TYPE('i) N" and inv: "rb_inv N s" and len: "count \<le> length buf"
    and res: "PopBatchCore N s buf count = (k, buf', s')"
  shows "k = min count (unat (head s - tail s))"
    and "rb_inv N s'"
    and "head s' = head s"
    and "tail s' = tail s + of_nat k"
    and "data_buff s' = data_buff s"
    and "length buf' = length buf"
    and "take k buf' = take k (logical_state N s)"
    and "drop k buf' = drop k buf"
    and "logical_state N s' = drop k (logical_state N s)"
proof -
  let ?size = "unat (head s - tail s)"
  let ?off = "unat (tail s) mod N"
  from inv have size: "?size \<le> N" and dlen: "length (data_buff s) = N"
    by (simp_all add: rb_inv_def)
  from res PopBatchCore_result [of N s buf count]
  have k: "k = min count ?size"
    and buf': "buf' = two_run_read N buf 0 (data_buff s) ?off k"
    and s': "s' = s\<lparr>tail := tail s + of_nat k\<rparr>"
    by (auto simp: unat_and_kMask [OF sa])
  show "k = min count ?size"
    by (rule k)
  from s' show "head s' = head s" "tail s' = tail s + of_nat k" "data_buff s' = data_buff s"
    by simp_all
  from buf' show blen: "length buf' = length buf"
    by simp
  from k have ksize: "k \<le> ?size"
    by simp
  show ls: "logical_state N s' = drop k (logical_state N s)"
    unfolding s' by (rule logical_state_drop [OF ksize])
  have "unat (head s' - tail s') = length (logical_state N s')"
    by simp
  also have "\<dots> \<le> ?size"
    unfolding ls by simp
  finally show "rb_inv N s'"
    using size dlen by (simp add: rb_inv_def s')
  have off: "?off < N"
    using static_asserts_pos [OF sa] by simp
  have kle: "0 + k \<le> length buf" "k \<le> N"
    using k len size by simp_all
  have nth: "buf' ! i = (if i < k then data_buff s ! ((?off + i) mod N) else buf ! i)"
    if "i < length buf" for i
    unfolding buf' using two_run_read_nth [OF kle(1) off kle(2) that, of "data_buff s"] by simp
  show "take k buf' = take k (logical_state N s)"
  proof (rule nth_equalityI)
    show "length (take k buf') = length (take k (logical_state N s))"
      using kle ksize blen by simp
  next
    fix i
    assume "i < length (take k buf')"
    then have i: "i < k" "i < length buf"
      using blen by simp_all
    with ksize have "i < ?size"
      by simp
    then show "take k buf' ! i = take k (logical_state N s) ! i"
      using i nth [OF i(2)] by (simp add: logical_state_nth [OF sa] mod_add_left_eq)
  qed
  show "drop k buf' = drop k buf"
  proof (rule nth_equalityI)
    show "length (drop k buf') = length (drop k buf)"
      using blen by simp
  next
    fix i
    assume "i < length (drop k buf')"
    then have "k + i < length buf"
      using blen by simp
    then show "drop k buf' ! i = drop k buf ! i"
      using nth [of "k + i"] blen kle by simp
  qed
qed

lemma PushImpl_logical_state:
  fixes s :: "('i::len, 'a) ringbuffer"
  assumes sa: "static_asserts TYPE('i) N" and inv: "rb_inv N s"
    and room: "unat (head s - tail s) < N"
    and res: "PushImpl N s v = (True, s')"
  shows "rb_inv N s'"
    and "tail s' = tail s"
    and "head s' = head s + 1"
    and "logical_state N s' = logical_state N s @ [v]"
proof -
  let ?size = "unat (head s - tail s)"
  let ?off = "unat (head s) mod N"
  from inv have dlen: "length (data_buff s) = N"
    by (simp add: rb_inv_def)
  from res have s': "s' = s\<lparr>data_buff := (data_buff s)[?off := v], head := head s + 1\<rparr>"
    by (auto simp: PushImpl_def Let_def unat_and_kMask [OF sa] split: if_splits)
  from s' show "tail s' = tail s" "head s' = head s + 1"
    by simp_all
  from room have "?size + 1 \<le> N"
    by simp
  from unat_advance [OF sa this] have size': "unat (head s' - tail s') = ?size + 1"
    by (simp add: s')
  with room dlen show "rb_inv N s'"
    by (simp add: rb_inv_def s')
  have off: "?off < N"
    using static_asserts_pos [OF sa] by simp
  have off_eq: "?off = (unat (tail s) + ?size) mod N"
    by (rule head_slot [OF sa])
  show "logical_state N s' = logical_state N s @ [v]"
  proof (rule nth_equalityI)
    show "length (logical_state N s') = length (logical_state N s @ [v])"
      using size' by simp
  next
    fix j
    assume "j < length (logical_state N s')"
    then have j: "j < ?size + 1"
      by (simp add: size')
    have lhs: "logical_state N s' ! j = (data_buff s)[?off := v] ! ((unat (tail s) + j) mod N)"
      using logical_state_nth [OF sa, of j s'] j size' by (simp add: s')
    show "logical_state N s' ! j = (logical_state N s @ [v]) ! j"
    proof (cases "j < ?size")
      case True
      then have "(unat (tail s) + j) mod N \<noteq> (unat (tail s) + ?size) mod N"
        using room by (intro mod_neq_of_close) simp_all
      with True show ?thesis
        by (simp add: lhs off_eq nth_append logical_state_nth [OF sa])
    next
      case False
      with j have eq: "j = ?size"
        by simp
      with lhs have "logical_state N s' ! j = (data_buff s)[?off := v] ! ?off"
        by (simp add: off_eq)
      with off dlen have "logical_state N s' ! j = v"
        by simp
      with eq show ?thesis
        by (simp add: nth_append)
    qed
  qed
qed

lemma Pop_logical_state:
  fixes s :: "('i::len, 'a) ringbuffer"
  assumes inv: "rb_inv N s" and res: "Pop N s data = (True, x, s')"
  shows "rb_inv N s'"
    and "head s' = head s"
    and "tail s' = tail s + 1"
    and "logical_state N s \<noteq> []"
    and "x = hd (logical_state N s)"
    and "logical_state N s' = tl (logical_state N s)"
proof -
  from res have ne: "tail s \<noteq> head s"
    and x: "x = data_buff s ! unat (tail s AND kMask N)"
    and s': "s' = s\<lparr>tail := tail s + of_nat 1\<rparr>"
    by (auto simp: Pop_def Let_def split: if_splits)
  from s' show "head s' = head s" "tail s' = tail s + 1"
    by simp_all
  from ne have pos: "1 \<le> unat (head s - tail s)"
    by (metis One_nat_def Suc_leI right_minus_eq unat_gt_0)
  then show ne': "logical_state N s \<noteq> []"
    by (metis length_logical_state list.size(3) not_one_le_zero)
  show ls: "logical_state N s' = tl (logical_state N s)"
    unfolding s' using logical_state_drop [OF pos, of N] by (simp add: drop_Suc)
  have "hd (logical_state N s) = logical_state N s ! 0"
    using ne' by (simp add: hd_conv_nth)
  also have "\<dots> = x"
    using pos by (simp add: logical_state_def x)
  finally show "x = hd (logical_state N s)"
    by simp
  have "unat (head s' - tail s') = length (logical_state N s')"
    by simp
  also have "\<dots> \<le> unat (head s - tail s)"
    unfolding ls by simp
  finally show "rb_inv N s'"
    using inv by (simp add: rb_inv_def s')
qed

subsection \<open>Batch transfer\<close>

lemma unat_eq_BufferSize_iff:
  assumes "static_asserts TYPE('i::len) N"
  shows "(x :: 'i word) = of_nat N \<longleftrightarrow> unat x = N"
proof
  assume "x = of_nat N"
  then show "unat x = N"
    by (simp add: unat_of_nat_BufferSize [OF assms])
next
  assume "unat x = N"
  then have "of_nat (unat x) = (of_nat N :: 'i word)"
    by simp
  then show "x = of_nat N"
    by simp
qed

lemma PushBatchLoop_bounds:
  "written \<le> fst (PushBatchLoop N buf count written h s) \<and>
   (written \<le> count \<longrightarrow> fst (PushBatchLoop N buf count written h s) \<le> count)"
proof (induction N buf count written h s rule: PushBatchLoop.induct)
  case (1 N buf count written h s)
  show ?case
  proof (cases "written < count \<and> BufferSize_minus_diff N h (tail s) \<noteq> 0")
    case False
    then show ?thesis
      by (subst (1 2) PushBatchLoop_unfold) auto
  next
    case True
    let ?w = "min (count - written) (unat (BufferSize_minus_diff N h (tail s)))"
    let ?s1 = "s\<lparr>data_buff := two_run_write N (data_buff s) (unat (h AND kMask N)) buf written ?w,
                  head := h + of_nat ?w\<rparr>"
    have IH: "written + ?w \<le> fst (PushBatchLoop N buf count (written + ?w) (h + of_nat ?w) ?s1) \<and>
        (written + ?w \<le> count \<longrightarrow> fst (PushBatchLoop N buf count (written + ?w) (h + of_nat ?w) ?s1) \<le> count)"
      using "1.IH" [OF _ refl refl _ refl refl refl refl refl] True
      by (simp add: two_run_write_def Let_def)
    have "PushBatchLoop N buf count written h s =
            PushBatchLoop N buf count (written + ?w) (h + of_nat ?w) ?s1"
      using True by (subst PushBatchLoop_unfold) simp
    with IH True show ?thesis
      by auto
  qed
qed

lemma PopBatchLoop_bounds:
  "read \<le> fst (PopBatchLoop N buf count read t s) \<and>
   (read \<le> count \<longrightarrow> fst (PopBatchLoop N buf count read t s) \<le> count)"
proof (induction N buf count read t s rule: PopBatchLoop.induct)
  case (1 N buf count read t s)
  show ?case
  proof (cases "read < count \<and> head s - t \<noteq> 0")
    case False
    then show ?thesis
      by (subst (1 2) PopBatchLoop_unfold) auto
  next
    case True
    let ?r = "min (count - read) (unat (head s - t))"
    let ?buf1 = "two_run_read N buf read (data_buff s) (unat (t AND kMask N)) ?r"
    let ?s1 = "s\<lparr>tail := t + of_nat ?r\<rparr>"
    have IH: "read + ?r \<le> fst (PopBatchLoop N ?buf1 count (read + ?r) (t + of_nat ?r) ?s1) \<and>
        (read + ?r \<le> count \<longrightarrow> fst (PopBatchLoop N ?buf1 count (read + ?r) (t + of_nat ?r) ?s1) \<le> count)"
      using "1.IH" [OF _ refl refl _ refl refl refl refl refl] True
      by (simp add: two_run_read_def Let_def)
    have "PopBatchLoop N buf count read t s =
            PopBatchLoop N ?buf1 count (read + ?r) (t + of_nat ?r) ?s1"
      using True by (subst PopBatchLoop_unfold) simp
    with IH True show ?thesis
      by auto
  qed
qed

lemma PushBatchLoop_ge: "written \<le> fst (PushBatchLoop N buf count written h s)"
  using PushBatchLoop_bounds [of written N buf count h s] by blast

lemma PopBatchLoop_ge: "read \<le> fst (PopBatchLoop N buf count read t s)"
  using PopBatchLoop_bounds [of read N buf count t s] by blast

lemma PushBatch_le: "fst (PushBatch N s buf count) \<le> count"
  using PushBatchLoop_bounds [of 0 N buf count "head s" s]
  by (simp add: PushBatch_def PushBatchCore_def)

lemma PopBatch_le: "fst (PopBatch N s buf count) \<le> count"
  using PopBatchLoop_bounds [of 0 N buf count "tail s" s]
  by (simp add: PopBatch_def PopBatchCore_def)

lemma PushBatch_zero_iff:
  assumes "0 < count"
  shows "fst (PushBatch N s buf count) = 0 \<longleftrightarrow> IsFull N s"
proof (cases "BufferSize_minus_diff N (head s) (tail s) = 0")
  case True
  then show ?thesis
    unfolding PushBatch_def PushBatchCore_def
    by (subst PushBatchLoop_unfold) (simp add: IsFull_def Available_def)
next
  case False
  let ?w = "min (count - 0) (unat (BufferSize_minus_diff N (head s) (tail s)))"
  from False assms have "0 < ?w"
    by (simp add: unat_gt_0)
  moreover have "PushBatch N s buf count =
      PushBatchLoop N buf count (0 + ?w) (head s + of_nat ?w)
        (s\<lparr>data_buff := two_run_write N (data_buff s) (unat (head s AND kMask N)) buf 0 ?w,
           head := head s + of_nat ?w\<rparr>)"
    unfolding PushBatch_def PushBatchCore_def
    using False assms by (subst PushBatchLoop_unfold) simp
  then have "0 + ?w \<le> fst (PushBatch N s buf count)"
    by (simp only: PushBatchLoop_ge)
  ultimately have "0 < fst (PushBatch N s buf count)"
    by linarith
  with False show ?thesis
    by (simp add: IsFull_def Available_def)
qed

lemma PopBatch_zero_iff:
  assumes "0 < count"
  shows "fst (PopBatch N s buf count) = 0 \<longleftrightarrow> IsEmpty s"
proof (cases "head s - tail s = 0")
  case True
  then show ?thesis
    unfolding PopBatch_def PopBatchCore_def
    by (subst PopBatchLoop_unfold) (simp add: IsEmpty_def Size_def)
next
  case False
  let ?r = "min (count - 0) (unat (head s - tail s))"
  from False assms have "0 < ?r"
    by (simp add: unat_gt_0)
  moreover have "PopBatch N s buf count =
      PopBatchLoop N (two_run_read N buf 0 (data_buff s) (unat (tail s AND kMask N)) ?r)
        count (0 + ?r) (tail s + of_nat ?r) (s\<lparr>tail := tail s + of_nat ?r\<rparr>)"
    unfolding PopBatch_def PopBatchCore_def
    using False assms by (subst PopBatchLoop_unfold) simp
  then have "0 + ?r \<le> fst (PopBatch N s buf count)"
    by (simp only: PopBatchLoop_ge)
  ultimately have "0 < fst (PopBatch N s buf count)"
    by linarith
  with False show ?thesis
    by (simp add: IsEmpty_def Size_def)
qed

lemma IsFull_iff:
  fixes s :: "('i::len, 'a) ringbuffer"
  assumes "static_asserts TYPE('i) N"
  shows "IsFull N s \<longleftrightarrow> unat (head s - tail s) = N"
proof -
  have "IsFull N s \<longleftrightarrow> head s - tail s = of_nat N"
    by (auto simp: IsFull_def Available_def BufferSize_minus_diff_eq [OF static_asserts_len [OF assms]])
  then show ?thesis
    by (simp add: unat_eq_BufferSize_iff [OF assms])
qed

text \<open>
  C3: \<^verbatim>\<open>PushBatch(src, n)\<close> and \<^verbatim>\<open>PopBatch(dst, n)\<close> each return a count of at most \<open>n\<close>;
  for \<open>n > 0\<close> the count of \<^verbatim>\<open>PushBatch\<close> is zero exactly when \<open>head - tail = N\<close> and that of
  \<^verbatim>\<open>PopBatch\<close> exactly when \<open>head = tail\<close>, which is also when \<^verbatim>\<open>IsFull()\<close>, respectively
  \<^verbatim>\<open>IsEmpty()\<close>, holds. On an empty buffer (the counters equal, at any value, so also when
  the batch straddles the end of the slot array and is copied as two runs),
  \<^verbatim>\<open>PushBatch(src, n)\<close> returns \<open>k = min n N\<close>, a subsequent \<^verbatim>\<open>PopBatch(dst, k)\<close> returns exactly
  \<open>k\<close>, the first \<open>k\<close> elements of \<open>dst\<close> are then the first \<open>k\<close> elements of \<open>src\<close>, and the
  counters are equal again. The caller's arrays hold at least the counts passed
  (\<open>n \<le> length src\<close>, \<open>k \<le> length dst\<close>).
\<close>

theorem PushBatch_PopBatch_conservation:
  fixes s :: "('i::len, 'a) ringbuffer"
  assumes "static_asserts TYPE('i) N" and "length (data_buff s) = N"
  shows "fst (PushBatch N s src n) \<le> n \<and>
         fst (PopBatch N s dst n) \<le> n \<and>
         (0 < n \<longrightarrow> (fst (PushBatch N s src n) = 0 \<longleftrightarrow> unat (head s - tail s) = N)) \<and>
         (0 < n \<longrightarrow> (fst (PopBatch N s dst n) = 0 \<longleftrightarrow> head s = tail s)) \<and>
         (IsFull N s \<longleftrightarrow> unat (head s - tail s) = N) \<and>
         (IsEmpty s \<longleftrightarrow> head s = tail s) \<and>
         (head s = tail s \<and> n \<le> length src \<and> PushBatch N s src n = (k, s') \<and> k \<le> length dst \<longrightarrow>
            k = min n N \<and>
            (\<exists>dst' s''. PopBatch N s' dst k = (k, dst', s'') \<and> take k dst' = take k src \<and>
                head s'' = tail s''))"
proof -
  have empty_iff: "IsEmpty t \<longleftrightarrow> head t = tail t" for t :: "('i, 'a) ringbuffer"
    by (simp add: IsEmpty_def Size_def)
  have "k = min n N \<and>
      (\<exists>dst' s''. PopBatch N s' dst k = (k, dst', s'') \<and> take k dst' = take k src \<and>
          head s'' = tail s'')"
    if ht: "head s = tail s" and n: "n \<le> length src" and push: "PushBatch N s src n = (k, s')"
      and k: "k \<le> length dst"
  proof -
    from ht assms(2) have inv: "rb_inv N s"
      by (simp add: rb_inv_def)
    from push have push': "PushBatchCore N s src n = (k, s')"
      by (simp add: PushBatch_def)
    note P = PushBatchCore_logical_state [OF assms(1) inv n push']
    from P(1) ht have kmin: "k = min n N"
      by simp
    from P(5) ht have ls: "logical_state N s' = take k src"
      by (simp add: logical_state_def)
    then have size': "unat (head s' - tail s') = k"
      using P(1) n by (metis length_logical_state length_take min.absorb2 min.cobounded1 order_trans)
    obtain r dst' s'' where pop: "PopBatchCore N s' dst k = (r, dst', s'')"
      by (metis prod_cases3)
    note Q = PopBatchCore_logical_state [OF assms(1) P(2) k pop]
    from Q(1) size' have r: "r = k"
      by simp
    from Q(7) ls r have "take k dst' = take k src"
      by simp
    moreover from Q(9) ls r have "logical_state N s'' = []"
      by simp
    then have "IsEmpty s''"
      by (metis IsEmpty_def Size_def length_logical_state list.size(3) unat_eq_0)
    ultimately show ?thesis
      using pop r kmin by (simp add: PopBatch_def empty_iff)
  qed
  then have roundtrip:
    "head s = tail s \<and> n \<le> length src \<and> PushBatch N s src n = (k, s') \<and> k \<le> length dst \<longrightarrow>
       k = min n N \<and>
       (\<exists>dst' s''. PopBatch N s' dst k = (k, dst', s'') \<and> take k dst' = take k src \<and>
           head s'' = tail s'')"
    by blast
  have full: "IsFull N s \<longleftrightarrow> unat (head s - tail s) = N"
    by (rule IsFull_iff [OF assms(1)])
  have push0: "0 < n \<longrightarrow> (fst (PushBatch N s src n) = 0 \<longleftrightarrow> unat (head s - tail s) = N)"
    using PushBatch_zero_iff [of n N s src] full by simp
  have pop0: "0 < n \<longrightarrow> (fst (PopBatch N s dst n) = 0 \<longleftrightarrow> head s = tail s)"
    using PopBatch_zero_iff [of n N s dst] empty_iff [of s] by simp
  from PushBatch_le [of N s src n] PopBatch_le [of N s dst n] push0 pop0 full empty_iff [of s]
    roundtrip
  show ?thesis
    by (intro conjI)
qed

theorem PushBatch_PopBatch_conservation_witness:
  "static_asserts TYPE(8) 4 \<and>
   length (data_buff (\<lparr>head = 3, tail = 3, data_buff = [0, 0, 0, 0]\<rparr> :: (8, int) ringbuffer)) = 4 \<and>
   head (\<lparr>head = 3, tail = 3, data_buff = [0, 0, 0, 0]\<rparr> :: (8, int) ringbuffer) =
     tail (\<lparr>head = 3, tail = 3, data_buff = [0, 0, 0, 0]\<rparr> :: (8, int) ringbuffer) \<and>
   PushBatch 4 (\<lparr>head = 3, tail = 3, data_buff = [0, 0, 0, 0]\<rparr> :: (8, int) ringbuffer) [1, 2, 3] 3 =
     (3, \<lparr>head = 6, tail = 3, data_buff = [2, 3, 0, 1]\<rparr>) \<and>
   (3 :: nat) = min 3 4 \<and>
   (\<exists>dst' s''. PopBatch 4 (\<lparr>head = 6, tail = 3, data_buff = [2, 3, 0, 1]\<rparr> :: (8, int) ringbuffer) [9, 9, 9] 3 =
       (3, dst', s'') \<and> take 3 dst' = take 3 [1, 2, 3] \<and> head s'' = tail s'') \<and>
   fst (PushBatch 4 (\<lparr>head = 6, tail = 3, data_buff = [2, 3, 0, 1]\<rparr> :: (8, int) ringbuffer) [7, 8] 2) \<noteq> 0 \<and>
   unat (head (\<lparr>head = 2, tail = 254, data_buff = [2, 3, 0, 1]\<rparr> :: (8, int) ringbuffer) -
         tail (\<lparr>head = 2, tail = 254, data_buff = [2, 3, 0, 1]\<rparr> :: (8, int) ringbuffer)) = 4 \<and>
   fst (PushBatch 4 (\<lparr>head = 2, tail = 254, data_buff = [2, 3, 0, 1]\<rparr> :: (8, int) ringbuffer) [7, 8] 2) = 0"
proof -
  let ?s = "\<lparr>head = 3, tail = 3, data_buff = [0, 0, 0, 0]\<rparr> :: (8, int) ringbuffer"
  let ?s' = "\<lparr>head = 6, tail = 3, data_buff = [2, 3, 0, 1]\<rparr> :: (8, int) ringbuffer"
  let ?f = "\<lparr>head = 2, tail = 254, data_buff = [2, 3, 0, 1]\<rparr> :: (8, int) ringbuffer"
  have sa: "static_asserts TYPE(8) 4"
    by code_simp
  have len: "length (data_buff ?s) = 4" "length (data_buff ?s') = 4" "length (data_buff ?f) = 4"
    by simp_all
  have push: "PushBatch 4 ?s [1, 2, 3] 3 = (3, ?s')"
    by code_simp
  have sz: "unat (head ?s' - tail ?s') = 3" "unat (head ?f - tail ?f) = 4"
    by simp_all
  from PushBatch_PopBatch_conservation [OF sa len(1), of "[1, 2, 3]" 3 "[9, 9, 9]" 3 ?s']
    PushBatch_PopBatch_conservation [OF sa len(2), of "[7, 8]" 2 "[]" 0 ?s']
    PushBatch_PopBatch_conservation [OF sa len(3), of "[7, 8]" 2 "[]" 0 ?f]
    push sz
  show ?thesis
    using sa by simp
qed

subsection \<open>Push and the fullness check\<close>

text \<open>
  What \<^verbatim>\<open>(current_head - current_tail) == BufferSize\<close> decides. For an \<^verbatim>\<open>IndexT\<close> of at least
  32 bits it is the comparison of the element count with \<open>N\<close>. For a narrower \<^verbatim>\<open>IndexT\<close>
  the difference is an \<^verbatim>\<open>int\<close>: once \<open>head\<close> has wrapped past \<^verbatim>\<open>MAX(IndexT)\<close> and \<open>tail\<close> has
  not, it is negative, never equal to \<open>N\<close>, and \<^verbatim>\<open>Push\<close> goes ahead whether or not the buffer
  is full.
\<close>

lemma not_full_when_empty:
  assumes "static_asserts TYPE('i::len) N"
  shows "\<not> diff_eq_BufferSize N (h :: 'i word) h"
proof (cases "LENGTH('i) < 32")
  case True
  then show ?thesis
    using diff_eq_BufferSize_narrow [OF assms True, of h h] static_asserts_pos [OF assms] by simp
next
  case False
  then have "32 \<le> LENGTH('i)"
    by simp
  from diff_eq_BufferSize_wide [OF assms this, of h h] show ?thesis
    using static_asserts_pos [OF assms] unat_eq_BufferSize_iff [OF assms, of 0] by auto
qed

lemma PushImpl_wide:
  fixes s :: "('i::len, 'a) ringbuffer"
  assumes "static_asserts TYPE('i) N" "32 \<le> LENGTH('i)"
  shows "PushImpl N s v =
           (if unat (head s - tail s) = N then (False, s)
            else (True, s\<lparr>data_buff := (data_buff s)[unat (head s) mod N := v], head := head s + 1\<rparr>))"
  by (simp add: PushImpl_def Let_def diff_eq_BufferSize_wide [OF assms] unat_and_kMask [OF assms(1)]
      unat_eq_BufferSize_iff [OF assms(1)])

lemma PushImpl_narrow:
  fixes s :: "('i::len, 'a) ringbuffer"
  assumes "static_asserts TYPE('i) N" "LENGTH('i) < 32"
  shows "PushImpl N s v =
           (if uint (head s) - uint (tail s) = int N then (False, s)
            else (True, s\<lparr>data_buff := (data_buff s)[unat (head s) mod N := v], head := head s + 1\<rparr>))"
  by (simp add: PushImpl_def Let_def diff_eq_BufferSize_narrow [OF assms] unat_and_kMask [OF assms(1)])

lemma diff_eq_BufferSize_narrow_unwrapped:
  assumes "static_asserts TYPE('i::len) N" "LENGTH('i) < 32" "(t :: 'i word) \<le> h"
  shows "diff_eq_BufferSize N h t \<longleftrightarrow> unat (h - t) = N"
proof -
  from assms(3) have "uint (h - t) = uint h - uint t"
    by (simp add: uint_sub_lem word_le_def)
  then have "uint h - uint t = int N \<longleftrightarrow> unat (h - t) = N"
    by (metis nat_int uint_nat)
  then show ?thesis
    by (simp add: diff_eq_BufferSize_narrow [OF assms(1,2)])
qed

lemma Push_full_narrow_wrapped:
  fixes s :: "('i::len, 'a) ringbuffer"
  assumes sa: "static_asserts TYPE('i) N" and narrow: "LENGTH('i) < 32"
    and wrapped: "head s < tail s"
  shows "fst (Push N s v)"
proof -
  from wrapped have "uint (head s) - uint (tail s) < 0"
    by (simp add: word_less_def)
  then have "uint (head s) - uint (tail s) \<noteq> int N"
    by simp
  then show ?thesis
    by (simp add: Push_def PushImpl_narrow [OF sa narrow])
qed

lemma PushFromCallback_PushImpl:
  "PushFromCallback N s callback c =
     (if diff_eq_BufferSize N (head s) (tail s) then (False, s, c)
      else (True, snd (PushImpl N s (fst (callback c))), snd (callback c)))"
  by (simp add: PushFromCallback_def PushImpl_def Let_def split: prod.split)

lemma Push_Pop_failure:
  fixes s :: "('i::len, 'a) ringbuffer"
  shows "(\<not> fst (Push N s v) \<longrightarrow> snd (Push N s v) = s) \<and>
         (head s = tail s \<longrightarrow> Pop N s data = (False, data, s)) \<and>
         (\<not> fst (Pop N s data) \<longrightarrow> snd (snd (Pop N s data)) = s)"
  by (simp add: Push_def PushImpl_def Pop_def Let_def)

lemma Push_full_wide:
  fixes s :: "('i::len, 'a) ringbuffer"
  assumes "static_asserts TYPE('i) N" "32 \<le> LENGTH('i)" "head s - tail s = of_nat N"
  shows "Push N s v = (False, s)"
  using assms(3) by (simp add: Push_def PushImpl_wide [OF assms(1,2)] unat_of_nat_BufferSize [OF assms(1)])

lemma PushFromCallback_counted_wide:
  fixes s :: "('i::len, 'a) ringbuffer"
  assumes "static_asserts TYPE('i) N" "32 \<le> LENGTH('i)"
  shows "PushFromCallback N s (counted callback) (k, c) =
           (if unat (head s - tail s) = N then (False, s, (k, c))
            else (True,
                  s\<lparr>data_buff := (data_buff s)[unat (head s) mod N := fst (callback c)],
                    head := head s + 1\<rparr>,
                  (Suc k, snd (callback c))))"
  by (simp add: PushFromCallback_def Let_def counted_def diff_eq_BufferSize_wide [OF assms]
      unat_eq_BufferSize_iff [OF assms(1)] unat_and_kMask [OF assms(1)] split: prod.split)

subsection \<open>The structural invariant\<close>

lemma rb_inv_Ringbuffer: "rb_inv N (Ringbuffer N z)"
  by (simp add: rb_inv_def Ringbuffer_def)

lemma PushImpl_rb_inv_wide:
  fixes s :: "('i::len, 'a) ringbuffer"
  assumes sa: "static_asserts TYPE('i) N" and wide: "32 \<le> LENGTH('i)" and inv: "rb_inv N s"
  shows "rb_inv N (snd (PushImpl N s v))"
proof (cases "unat (head s - tail s) = N")
  case True
  then show ?thesis
    using inv by (simp add: PushImpl_wide [OF sa wide])
next
  case False
  with inv have room: "unat (head s - tail s) < N"
    by (simp add: rb_inv_def)
  from False have "PushImpl N s v = (True, snd (PushImpl N s v))"
    by (simp add: PushImpl_wide [OF sa wide])
  from PushImpl_logical_state(1) [OF sa inv room this] show ?thesis .
qed

lemma Discard_rb_inv:
  fixes s :: "('i::len, 'a) ringbuffer"
  assumes "rb_inv N s"
  shows "rb_inv N (snd (Discard s count))"
proof -
  let ?k = "min count (unat (head s - tail s))"
  have "?k \<le> unat (head s - tail s)"
    by simp
  from logical_state_drop [OF this, of N]
  have "length (logical_state N (s\<lparr>tail := tail s + of_nat ?k\<rparr>)) \<le> unat (head s - tail s)"
    by simp
  then have "rb_inv N (s\<lparr>tail := tail s + of_nat ?k\<rparr>)"
    using assms by (simp add: rb_inv_def)
  with assms show ?thesis
    by (simp add: Discard_def Let_def)
qed

lemma step_rb_inv_wide:
  fixes s :: "('i::len, 'a) ringbuffer"
  assumes sa: "static_asserts TYPE('i) N" and wide: "32 \<le> LENGTH('i)" and inv: "rb_inv N s"
  shows "rb_inv N (step N s op)"
proof (cases op)
  case (OpPush v)
  then show ?thesis
    using PushImpl_rb_inv_wide [OF sa wide inv] by (simp add: Push_def)
next
  case (OpPushFromCallback v)
  then show ?thesis
    using PushImpl_rb_inv_wide [OF sa wide inv, of v] inv by (simp add: PushFromCallback_PushImpl)
next
  case (OpPushBatch buf)
  obtain k s' where res: "PushBatchCore N s buf (length buf) = (k, s')"
    by (metis surj_pair)
  from PushBatchCore_logical_state(2) [OF sa inv _ res] OpPushBatch res show ?thesis
    by (simp add: PushBatch_def)
next
  case OpProducerClear
  then show ?thesis
    using inv by (simp add: ProducerClear_def rb_inv_def)
next
  case (OpPop data)
  show ?thesis
  proof (cases "fst (Pop N s data)")
    case True
    then have "Pop N s data = (True, fst (snd (Pop N s data)), snd (snd (Pop N s data)))"
      by (cases "Pop N s data") simp
    from Pop_logical_state(1) [OF inv this] OpPop show ?thesis
      by simp
  next
    case False
    then show ?thesis
      using inv OpPop by (simp add: Pop_def Let_def split: if_splits)
  qed
next
  case (OpPopBatch buf)
  obtain k buf' s' where res: "PopBatchCore N s buf (length buf) = (k, buf', s')"
    by (metis prod_cases3)
  from PopBatchCore_logical_state(2) [OF sa inv _ res] OpPopBatch res show ?thesis
    by (simp add: PopBatch_def)
next
  case (OpDiscard count)
  then show ?thesis
    using Discard_rb_inv [OF inv] by simp
next
  case OpConsumerClear
  then show ?thesis
    using inv by (simp add: ConsumerClear_def rb_inv_def)
qed

lemma run_ops_rb_inv_wide:
  fixes s :: "('i::len, 'a) ringbuffer"
  assumes sa: "static_asserts TYPE('i) N" and wide: "32 \<le> LENGTH('i)" and inv: "rb_inv N s"
  shows "rb_inv N (run_ops N s ops)"
  using inv unfolding run_ops_def
  by (induction ops arbitrary: s) (simp_all add: step_rb_inv_wide [OF sa wide])

lemma Size_Available:
  fixes s :: "('i::len, 'a) ringbuffer"
  assumes sa: "static_asserts TYPE('i) N" and inv: "rb_inv N s"
  shows "unat (Size s) \<le> Capacity N" and "unat (Size s) + unat (Available N s) = Capacity N"
  using inv unat_space [OF sa, of "head s" "tail s"]
  by (simp_all add: rb_inv_def Size_def Available_def Capacity_def)

subsection \<open>FIFO delivery\<close>

lemma spsc_run_conservation_wide:
  fixes s :: "('i::len, 'a) ringbuffer"
  assumes sa: "static_asserts TYPE('i) N" and wide: "32 \<le> LENGTH('i)"
    and inv: "rb_inv N s" and run: "spsc_run N s data ops = (pushed, popped, s')"
  shows "logical_state N s @ pushed = popped @ logical_state N s' \<and> rb_inv N s'"
  using inv run
proof (induction ops arbitrary: s data pushed popped s')
  case Nil
  then show ?case by simp
next
  case (Cons op ops)
  show ?case
  proof (cases op)
    case (ProducerPush v)
    obtain ok s1 where push: "PushImpl N s v = (ok, s1)"
      by (metis surj_pair)
    obtain pushed1 popped1 s2 where rest: "spsc_run N s1 data ops = (pushed1, popped1, s2)"
      by (metis prod_cases3)
    from Cons.prems(2) ProducerPush push rest
    have eqs: "pushed = (if ok then [v] else []) @ pushed1" "popped = popped1" "s' = s2"
      by (simp_all add: Push_def)
    have s1: "rb_inv N s1 \<and> logical_state N s1 = logical_state N s @ (if ok then [v] else [])"
    proof (cases "unat (head s - tail s) = N")
      case True
      with push Cons.prems(1) show ?thesis
        by (auto simp: PushImpl_wide [OF sa wide])
    next
      case False
      with Cons.prems(1) have room: "unat (head s - tail s) < N"
        by (simp add: rb_inv_def)
      from False push have ok: "ok" and push': "PushImpl N s v = (True, s1)"
        by (auto simp: PushImpl_wide [OF sa wide])
      from PushImpl_logical_state(1,4) [OF sa Cons.prems(1) room push'] ok show ?thesis
        by simp
    qed
    from Cons.IH [OF conjunct1 [OF s1] rest] s1 eqs show ?thesis
      by simp
  next
    case ConsumerPop
    obtain ok x s1 where pop: "Pop N s data = (ok, x, s1)"
      by (metis prod_cases3)
    obtain pushed1 popped1 s2 where rest: "spsc_run N s1 x ops = (pushed1, popped1, s2)"
      by (metis prod_cases3)
    from Cons.prems(2) ConsumerPop pop rest
    have eqs: "pushed = pushed1" "popped = (if ok then [x] else []) @ popped1" "s' = s2"
      by simp_all
    have s1: "rb_inv N s1 \<and> logical_state N s = (if ok then [x] else []) @ logical_state N s1"
    proof (cases ok)
      case True
      with pop have pop': "Pop N s data = (True, x, s1)"
        by simp
      from Pop_logical_state(1,4,5,6) [OF Cons.prems(1) pop'] True show ?thesis
        by simp
    next
      case False
      with pop Cons.prems(1) show ?thesis
        by (auto simp: Pop_def Let_def split: if_splits)
    qed
    from Cons.IH [OF conjunct1 [OF s1] rest] s1 eqs show ?thesis
      by simp
  qed
qed

lemma spsc_fifo_wide:
  fixes s' :: "('i::len, 'a) ringbuffer"
  assumes sa: "static_asserts TYPE('i) N" and wide: "32 \<le> LENGTH('i)"
    and run: "spsc_run N (Ringbuffer N z) data ops = (pushed, popped, s')"
  shows "prefix popped pushed" and "pushed = popped @ logical_state N s'"
proof -
  have "logical_state N (Ringbuffer N z :: ('i, 'a) ringbuffer) = []"
    by (simp add: logical_state_def Ringbuffer_def)
  with spsc_run_conservation_wide [OF sa wide rb_inv_Ringbuffer run]
  show "pushed = popped @ logical_state N s'"
    by simp
  then show "prefix popped pushed"
    by simp
qed

lemma Push_after_N_pushes_wide:
  fixes s :: "('i::len, 'a) ringbuffer"
  assumes sa: "static_asserts TYPE('i) N" and wide: "32 \<le> LENGTH('i)" and inv: "rb_inv N s"
    and run: "spsc_run N s data (map ProducerPush vs) = (vs, popped, s')" and len: "length vs = N"
  shows "Push N s' v = (False, s')"
proof -
  from spsc_run_conservation_wide [OF sa wide inv run]
  have eq: "logical_state N s @ vs = popped @ logical_state N s'" and inv': "rb_inv N s'"
    by simp_all
  have "fst (snd (spsc_run N s data (map ProducerPush ws))) = []" for ws and s :: "('i, 'a) ringbuffer"
  proof (induction ws arbitrary: s)
    case Nil
    show ?case by simp
  next
    case (Cons w ws)
    obtain ok s1 where push: "Push N s w = (ok, s1)"
      by (metis surj_pair)
    obtain p q s2 where rest: "spsc_run N s1 data (map ProducerPush ws) = (p, q, s2)"
      by (metis prod_cases3)
    with Cons [of s1] have "q = []"
      by simp
    with push rest show ?case
      by simp
  qed
  from this [of s vs] run have "popped = []"
    by simp
  with eq have "length (logical_state N s') = length (logical_state N s) + N"
    using len by (metis append_Nil length_append)
  with inv' have "unat (head s' - tail s') = N"
    by (simp add: rb_inv_def)
  then show ?thesis
    by (simp add: Push_def PushImpl_wide [OF sa wide])
qed

lemma push_pop_cycle:
  fixes s :: "('i::len, 'a) ringbuffer"
  assumes sa: "static_asserts TYPE('i) N" and len: "length (data_buff s) = N"
    and empty: "head s = tail s"
  shows "\<exists>s1. Push N s v = (True, s1) \<and>
           Pop N s1 data = (True, v, s1\<lparr>tail := tail s + 1\<rparr>) \<and>
           head s1 = head s + 1 \<and> tail s1 = tail s \<and> length (data_buff s1) = N"
proof -
  let ?off = "unat (head s AND kMask N)"
  let ?s1 = "s\<lparr>data_buff := (data_buff s)[?off := v], head := head s + 1\<rparr>"
  have push: "Push N s v = (True, ?s1)"
    using not_full_when_empty [OF sa, of "tail s"] empty
    by (simp add: Push_def PushImpl_def Let_def)
  have "?off < N"
    by (rule unat_and_kMask_less [OF sa])
  with len empty have "Pop N ?s1 data = (True, v, ?s1\<lparr>tail := tail s + 1\<rparr>)"
    by (simp add: Pop_def Let_def)
  with push len show ?thesis
    by simp
qed

lemma spsc_run_cycles:
  fixes s :: "('i::len, 'a) ringbuffer"
  assumes sa: "static_asserts TYPE('i) N" and len: "length (data_buff s) = N"
    and empty: "head s = tail s"
  shows "\<exists>s'. spsc_run N s data (cycles vs) = (vs, vs, s') \<and>
           head s' = head s + of_nat (length vs) \<and> tail s' = head s' \<and>
           length (data_buff s') = N"
  using len empty
proof (induction vs arbitrary: s data)
  case Nil
  then show ?case
    by (simp add: cycles_def)
next
  case (Cons v vs)
  from push_pop_cycle [OF sa Cons.prems, of v data] obtain s1
    where push: "Push N s v = (True, s1)"
      and pop: "Pop N s1 data = (True, v, s1\<lparr>tail := tail s + 1\<rparr>)"
      and s1: "head s1 = head s + 1" "tail s1 = tail s" "length (data_buff s1) = N"
    by blast
  let ?s2 = "s1\<lparr>tail := tail s + 1\<rparr>"
  from s1 Cons.prems have "length (data_buff ?s2) = N" "head ?s2 = tail ?s2"
    by simp_all
  from Cons.IH [OF this, of v] obtain s'
    where rest: "spsc_run N ?s2 v (cycles vs) = (vs, vs, s')"
      and s': "head s' = head ?s2 + of_nat (length vs)" "tail s' = head s'"
        "length (data_buff s') = N"
    by blast
  have "spsc_run N s data (cycles (v # vs)) = (v # vs, v # vs, s')"
    using push pop rest by (simp add: cycles_def)
  with s' s1 show ?case
    by (simp add: add.assoc)
qed

subsection \<open>Indexed access\<close>

lemma unat_and_mask: "unat ((x :: 'a::len word) AND mask m) = unat x mod 2 ^ m"
proof -
  have "unat (x AND mask m) = unat (take_bit m x)"
    by (simp add: take_bit_eq_mask)
  also have "\<dots> = unat x mod 2 ^ m"
    by (metis unsigned_take_bit_eq take_bit_eq_mod)
  finally show ?thesis .
qed

lemma ucast_kMask:
  assumes "static_asserts TYPE('i::len) N" "N = 2 ^ m"
  shows "(ucast (kMask N :: 'i word) :: size_t) = mask m"
proof -
  from assms static_asserts_less [OF assms(1)] have "m < LENGTH('i)"
    by simp
  with static_asserts_len [OF assms(1)] have "m \<le> 64"
    by simp
  have "(kMask N :: 'i word) = mask m"
    by (simp add: kMask_def assms(2) mask_eq_decr_exp)
  then show ?thesis
    using \<open>m \<le> 64\<close> \<open>m < LENGTH('i)\<close> by (simp add: ucast_mask_eq min_def)
qed

lemma unat_ucast_index:
  assumes "unat (index :: size_t) < 2 ^ LENGTH('i::len)"
  shows "unat (ucast index :: 'i word) = unat index"
  using assms by (simp add: unsigned_ucast_eq take_bit_nat_eq_self)

lemma unat_ucast_up_size_t:
  assumes "LENGTH('i::len) \<le> 64"
  shows "unat (ucast (t :: 'i word) :: size_t) = unat t"
proof -
  have "unat t < 2 ^ LENGTH('i)"
    by simp
  also have "(2::nat) ^ LENGTH('i) \<le> 2 ^ 64"
    using assms by (intro power_increasing) simp_all
  finally show ?thesis
    by (simp add: unsigned_ucast_eq take_bit_nat_eq_self)
qed

lemma At_slot:
  assumes sa: "static_asserts TYPE('i::len) N"
  shows "unat ((ucast (t :: 'i word) + index) AND (ucast (kMask N :: 'i word) :: size_t)) =
           (unat t + unat index) mod N"
proof -
  from static_asserts_pow2 [OF sa] obtain m where m: "N = 2 ^ m" "m < LENGTH('i)"
    by blast
  with static_asserts_len [OF sa] have "m \<le> 64"
    by simp
  then have "(2::nat) ^ m dvd 2 ^ 64"
    by (rule le_imp_power_dvd)
  with m have dvd: "N dvd 2 ^ 64"
    by simp
  have "unat ((ucast t + index) AND (ucast (kMask N :: 'i word) :: size_t)) =
          unat ((ucast t + index) AND (mask m :: size_t))"
    by (simp only: ucast_kMask [OF sa m(1)])
  also have "\<dots> = unat (ucast t + index) mod 2 ^ m"
    by (rule unat_and_mask)
  also have "unat (ucast t + index) = (unat t + unat index) mod 2 ^ 64"
    by (simp add: unat_word_ariths unat_ucast_up_size_t [OF static_asserts_len [OF sa]])
  finally show ?thesis
    using dvd by (simp add: mod_mod_cancel m(1))
qed

lemma At_wide:
  fixes s :: "('i::len, 'a) ringbuffer"
  assumes sa: "static_asserts TYPE('i) N" and wide: "32 \<le> LENGTH('i)"
    and index: "unat index < 2 ^ LENGTH('i)"
  shows "At N s index =
           (if unat (head s - tail s) \<le> unat index then None
            else Some ((unat (tail s) + unat index) mod N))"
  using wide
  by (simp add: At_def Let_def diff_le_index_def word_le_nat_alt unat_ucast_index [OF index]
      At_slot [OF sa])

lemma At_logical_state:
  fixes s :: "('i::len, 'a) ringbuffer"
  assumes sa: "static_asserts TYPE('i) N" and wide: "32 \<le> LENGTH('i)"
    and index: "unat index < unat (head s - tail s)"
  shows "\<exists>k. At N s index = Some k \<and> data_buff s ! k = logical_state N s ! unat index"
proof -
  have "unat (head s - tail s) < 2 ^ LENGTH('i)"
    by simp
  with index have "unat index < 2 ^ LENGTH('i)"
    by (rule less_trans)
  from At_wide [OF sa wide this, of s] index show ?thesis
    by (simp add: logical_state_nth [OF sa])
qed

subsection \<open>Clear operations and the direction of the counters\<close>

lemma ProducerClear_ConsumerClear_spec:
  fixes s :: "('i::len, 'a) ringbuffer"
  shows "head (ProducerClear s) = tail s \<and> tail (ProducerClear s) = tail s \<and>
         data_buff (ProducerClear s) = data_buff s \<and> Size (ProducerClear s) = 0 \<and>
         tail (ConsumerClear s) = head s \<and> head (ConsumerClear s) = head s \<and>
         data_buff (ConsumerClear s) = data_buff s \<and> Size (ConsumerClear s) = 0"
  by (simp add: ProducerClear_def ConsumerClear_def Size_def)

lemma PushBatchLoop_counters:
  "head s = h \<Longrightarrow>
   head (snd (PushBatchLoop N buf count written h s)) =
     h + of_nat (fst (PushBatchLoop N buf count written h s) - written) \<and>
   tail (snd (PushBatchLoop N buf count written h s)) = tail s"
proof (induction N buf count written h s rule: PushBatchLoop.induct)
  case (1 N buf count written h s)
  show ?case
  proof (cases "written < count \<and> BufferSize_minus_diff N h (tail s) \<noteq> 0")
    case False
    then show ?thesis
      using "1.prems" by (subst (1 2 3) PushBatchLoop_unfold) auto
  next
    case True
    let ?w = "min (count - written) (unat (BufferSize_minus_diff N h (tail s)))"
    let ?s1 = "s\<lparr>data_buff := two_run_write N (data_buff s) (unat (h AND kMask N)) buf written ?w,
                  head := h + of_nat ?w\<rparr>"
    let ?R = "PushBatchLoop N buf count (written + ?w) (h + of_nat ?w) ?s1"
    from "1.IH" [OF _ refl refl _ refl refl refl refl refl] True
    have IH: "head (snd ?R) = h + of_nat ?w + of_nat (fst ?R - (written + ?w)) \<and>
        tail (snd ?R) = tail ?s1"
      by (simp add: two_run_write_def Let_def)
    have eq: "PushBatchLoop N buf count written h s = ?R"
      using True by (subst PushBatchLoop_unfold) simp
    obtain k s' where R: "?R = (k, s')"
      by (metis surj_pair)
    have "written + ?w \<le> fst ?R"
      by (rule PushBatchLoop_ge)
    with R have "k - written = ?w + (k - (written + ?w))"
      by simp
    then have "(of_nat (k - written) :: 'a word) = of_nat ?w + of_nat (k - (written + ?w))"
      by (simp only: of_nat_add)
    moreover from IH R have "head s' = h + of_nat ?w + of_nat (k - (written + ?w))" "tail s' = tail s"
      by simp_all
    ultimately show ?thesis
      unfolding eq R by (simp add: add.assoc)
  qed
qed

lemma PopBatchLoop_counters:
  "tail s = t \<Longrightarrow>
   tail (snd (snd (PopBatchLoop N buf count read t s))) =
     t + of_nat (fst (PopBatchLoop N buf count read t s) - read) \<and>
   head (snd (snd (PopBatchLoop N buf count read t s))) = head s"
proof (induction N buf count read t s rule: PopBatchLoop.induct)
  case (1 N buf count read t s)
  show ?case
  proof (cases "read < count \<and> head s - t \<noteq> 0")
    case False
    then show ?thesis
      using "1.prems" by (subst (1 2 3) PopBatchLoop_unfold) auto
  next
    case True
    let ?r = "min (count - read) (unat (head s - t))"
    let ?buf1 = "two_run_read N buf read (data_buff s) (unat (t AND kMask N)) ?r"
    let ?s1 = "s\<lparr>tail := t + of_nat ?r\<rparr>"
    let ?R = "PopBatchLoop N ?buf1 count (read + ?r) (t + of_nat ?r) ?s1"
    from "1.IH" [OF _ refl refl _ refl refl refl refl refl] True
    have IH: "tail (snd (snd ?R)) = t + of_nat ?r + of_nat (fst ?R - (read + ?r)) \<and>
        head (snd (snd ?R)) = head ?s1"
      by (simp add: two_run_read_def Let_def)
    have eq: "PopBatchLoop N buf count read t s = ?R"
      using True by (subst PopBatchLoop_unfold) simp
    obtain k buf' s' where R: "?R = (k, buf', s')"
      by (metis prod_cases3)
    have "read + ?r \<le> fst ?R"
      by (rule PopBatchLoop_ge)
    with R have "k - read = ?r + (k - (read + ?r))"
      by simp
    then have "(of_nat (k - read) :: 'a word) = of_nat ?r + of_nat (k - (read + ?r))"
      by (simp only: of_nat_add)
    moreover from IH R have "tail s' = t + of_nat ?r + of_nat (k - (read + ?r))" "head s' = head s"
      by simp_all
    ultimately show ?thesis
      unfolding eq R by (simp add: add.assoc)
  qed
qed

lemma PushBatch_counters:
  "head (snd (PushBatch N s buf count)) = head s + of_nat (fst (PushBatch N s buf count)) \<and>
   tail (snd (PushBatch N s buf count)) = tail s"
  using PushBatchLoop_counters [OF refl, where s = s and N = N and buf = buf and count = count and written = 0]
  by (simp add: PushBatch_def PushBatchCore_def)

lemma PopBatch_counters:
  "tail (snd (snd (PopBatch N s buf count))) = tail s + of_nat (fst (PopBatch N s buf count)) \<and>
   head (snd (snd (PopBatch N s buf count))) = head s"
  using PopBatchLoop_counters [OF refl, where s = s and N = N and buf = buf and count = count and read = 0]
  by (simp add: PopBatch_def PopBatchCore_def)

lemma step_counters:
  fixes s :: "('i::len, 'a) ringbuffer"
  assumes "op \<noteq> OpProducerClear"
  shows "head (step N s op) = head s + of_nat (elements_pushed N s op) \<and>
         tail (step N s op) = tail s + of_nat (elements_popped N s op)"
proof (cases op)
  case (OpPush v)
  then show ?thesis
    by (simp add: elements_pushed_def elements_popped_def Push_def PushImpl_def Let_def)
next
  case (OpPushFromCallback v)
  then show ?thesis
    by (simp add: elements_pushed_def elements_popped_def PushFromCallback_def Let_def)
next
  case (OpPushBatch buf)
  then show ?thesis
    using PushBatch_counters [of N s buf "length buf"]
    by (simp add: elements_pushed_def elements_popped_def)
next
  case OpProducerClear
  with assms show ?thesis
    by simp
next
  case (OpPop data)
  then show ?thesis
    by (simp add: elements_pushed_def elements_popped_def Pop_def Let_def)
next
  case (OpPopBatch buf)
  then show ?thesis
    using PopBatch_counters [of N s buf "length buf"]
    by (simp add: elements_pushed_def elements_popped_def)
next
  case (OpDiscard count)
  then show ?thesis
    by (simp add: elements_pushed_def elements_popped_def Discard_def Let_def)
next
  case OpConsumerClear
  then show ?thesis
    by (simp add: elements_pushed_def elements_popped_def ConsumerClear_def Size_def)
qed

lemma word_le_add_of_nat:
  fixes x :: "'i::len word"
  assumes "unat x + k < 2 ^ LENGTH('i)"
  shows "x \<le> x + of_nat k"
proof -
  from assms have "k < 2 ^ LENGTH('i)"
    by simp
  then have "unat (of_nat k :: 'i word) = k"
    by (simp add: unat_of_nat)
  with assms have "unat x + unat (of_nat k :: 'i word) < 2 ^ LENGTH('i)"
    by simp
  then show ?thesis
    by (simp only: no_olen_add_nat)
qed

section \<open>The statements of the specification\<close>

subsection \<open>Statements that fail for an index type narrower than \<^verbatim>\<open>int\<close>\<close>

text \<open>
  The instance below is \<^verbatim>\<open>Ringbuffer<int, 4, false, uint8_t>\<close>. From the constructed buffer,
  254 cycles of one \<^verbatim>\<open>Push\<close> and one \<^verbatim>\<open>Pop\<close> bring both counters to 254; the pushes that
  follow take \<open>head\<close> through 255 to 0, 1, 2 while \<open>tail\<close> stays at 254. From then on
  \<^verbatim>\<open>current_head - current_tail\<close> is a negative \<^verbatim>\<open>int\<close>.
\<close>

text \<open>
  C1: in every run of one producer pushing and one consumer popping on an initially empty
  buffer, the values returned by the successful pops form a prefix of the values pushed, in
  push order. For an \<^verbatim>\<open>IndexT\<close> of at least 32 bits this is lemma \<open>spsc_fifo_wide\<close>. The run
  evaluated here violates it: after the 254 cycles the values 254, \<dots>, 258 are pushed and all
  five pushes succeed on a buffer of four slots, the fifth overwriting the slot of 254; the
  pop that follows returns 258 where 254 was due.
\<close>

theorem spsc_fifo_fails_uint8:
  "spsc_run 4 (Ringbuffer 4 0 :: (8, int) ringbuffer) 0
     (cycles (map int [0..<254]) @ map ProducerPush [254, 255, 256, 257, 258] @ [ConsumerPop]) =
   (map int [0..<259], map int [0..<254] @ [258],
    \<lparr>head = 3, tail = 255, data_buff = [256, 257, 258, 255]\<rparr>) \<and>
   \<not> prefix (map int [0..<254] @ [258]) (map int [0..<259])"
  by code_simp

text \<open>
  C2: \<^verbatim>\<open>Push\<close> on a full buffer (\<open>head - tail = N\<close>) returns false, \<^verbatim>\<open>Pop\<close> on an empty one
  returns false, both leave the state unchanged; so after \<open>N\<close> successful pushes with no pop
  in between the next push fails. The parts on \<^verbatim>\<open>Pop\<close> and on the unchanged state are lemma
  \<open>Push_Pop_failure\<close>, the part on \<^verbatim>\<open>Push\<close> for an \<^verbatim>\<open>IndexT\<close> of at least 32 bits is lemmas
  \<open>Push_full_wide\<close> and \<open>Push_after_N_pushes_wide\<close>. Here, after the 254 cycles, four pushes
  succeed with no pop in between; the buffer then holds four elements (\<^verbatim>\<open>Size()\<close> is 4 and
  \<^verbatim>\<open>IsFull()\<close> is true), and the next push returns true and advances \<open>head\<close>.
\<close>

theorem Push_succeeds_on_full_uint8:
  "spsc_run 4 (Ringbuffer 4 0 :: (8, int) ringbuffer) 0
     (cycles (map int [0..<254]) @ map ProducerPush [254, 255, 256, 257]) =
   (map int [0..<258], map int [0..<254],
    \<lparr>head = 2, tail = 254, data_buff = [256, 257, 254, 255]\<rparr>) \<and>
   Size (\<lparr>head = 2, tail = 254, data_buff = [256, 257, 254, 255]\<rparr> :: (8, int) ringbuffer) = 4 \<and>
   IsFull 4 (\<lparr>head = 2, tail = 254, data_buff = [256, 257, 254, 255]\<rparr> :: (8, int) ringbuffer) \<and>
   Push 4 (\<lparr>head = 2, tail = 254, data_buff = [256, 257, 254, 255]\<rparr> :: (8, int) ringbuffer) 258 =
     (True, \<lparr>head = 3, tail = 254, data_buff = [256, 257, 258, 255]\<rparr>)"
  by code_simp

text \<open>
  C4: for every unsigned index type with \<open>N \<le> MAX(I)/2\<close> the counters wrap only at the full
  range of the type and \<open>head - tail\<close> always equals the element count, also across the
  wrap; in particular any number of cycles of one push and one pop succeeds and returns the
  pushed values in order. The cycles are lemma \<open>spsc_run_cycles\<close>, for every index type.
  The difference that \<^verbatim>\<open>PushImpl\<close> compares with \<^verbatim>\<open>BufferSize\<close> is not the element count
  across the wrap, though: after the 254 cycles and two pushes the buffer holds two elements
  (\<open>head = 0\<close>, \<open>tail = 254\<close>, \<^verbatim>\<open>Size()\<close> is 2), and the compared value is \<open>0 - 254\<close> as an
  \<^verbatim>\<open>int\<close>, which is \<open>2 ^ 64 - 254\<close> as a \<^verbatim>\<open>std::size_t\<close>; with four elements it is
  \<open>2 ^ 64 - 252\<close>, so that the check for a full buffer fails, and after a fifth push
  \<open>head - tail\<close> in \<^verbatim>\<open>IndexT\<close> is 5, more than the four slots can hold.
\<close>

theorem head_minus_tail_promoted_uint8:
  "spsc_run 4 (Ringbuffer 4 0 :: (8, int) ringbuffer) 0
     (cycles (map int [0..<254]) @ map ProducerPush [254, 255]) =
   (map int [0..<256], map int [0..<254],
    \<lparr>head = 0, tail = 254, data_buff = [252, 253, 254, 255]\<rparr>) \<and>
   Size (\<lparr>head = 0, tail = 254, data_buff = [252, 253, 254, 255]\<rparr> :: (8, int) ringbuffer) = 2 \<and>
   diff_size_t (0 :: 8 word) 254 = 18446744073709551362 \<and>
   Size (\<lparr>head = 2, tail = 254, data_buff = [256, 257, 254, 255]\<rparr> :: (8, int) ringbuffer) = 4 \<and>
   diff_size_t (2 :: 8 word) 254 = 18446744073709551364 \<and>
   \<not> diff_eq_BufferSize 4 (2 :: 8 word) 254 \<and>
   Size (snd (snd (spsc_run 4 (Ringbuffer 4 0 :: (8, int) ringbuffer) 0
     (cycles (map int [0..<254]) @ map ProducerPush [254, 255, 256, 257, 258])))) = 5"
  by code_simp

text \<open>
  C8: \<^verbatim>\<open>PushFromCallback(f)\<close> invokes \<open>f\<close> at most once, and exactly when the push occurs:
  on a full buffer \<open>f\<close> is not invoked and the call returns false, otherwise \<open>f\<close> is invoked
  once, its result is written to the slot of \<open>head\<close>, \<open>head\<close> is advanced by one and the call
  returns true. For an \<^verbatim>\<open>IndexT\<close> of at least 32 bits this is lemma
  \<open>PushFromCallback_counted_wide\<close>. Here the buffer holds four elements after the 254 cycles
  and four pushes, and \<^verbatim>\<open>PushFromCallback\<close> invokes the callable (its counter goes from 0 to
  1), overwrites the oldest element with its result and returns true.
\<close>

theorem PushFromCallback_invoked_on_full_uint8:
  "run_ops 4 (Ringbuffer 4 0 :: (8, int) ringbuffer)
     (concat (replicate 254 [OpPush 0, OpPop 0]) @ [OpPush 1, OpPush 2, OpPush 3, OpPush 4]) =
     \<lparr>head = 2, tail = 254, data_buff = [3, 4, 1, 2]\<rparr> \<and>
   Size (\<lparr>head = 2, tail = 254, data_buff = [3, 4, 1, 2]\<rparr> :: (8, int) ringbuffer) = 4 \<and>
   PushFromCallback 4 (\<lparr>head = 2, tail = 254, data_buff = [3, 4, 1, 2]\<rparr> :: (8, int) ringbuffer)
     (counted (\<lambda>c. (999, c))) (0, ()) =
     (True, \<lparr>head = 3, tail = 254, data_buff = [3, 4, 999, 2]\<rparr>, (1, ()))"
  by code_simp

text \<open>
  C9: in every state reachable from the constructed buffer, \<open>0 \<le> Size() \<le> Capacity()\<close> and
  \<open>Size() + Available() = Capacity()\<close>; the invariant \<open>head - tail \<le> N\<close> is preserved by every
  operation. For an \<^verbatim>\<open>IndexT\<close> of at least 32 bits this is lemmas \<open>run_ops_rb_inv_wide\<close> and
  \<open>Size_Available\<close>. Here a fifth push after the 254 cycles and four pushes reaches a state
  with \<^verbatim>\<open>Size()\<close> 5 and \<^verbatim>\<open>Available()\<close> 255, for a capacity of 4.
\<close>

theorem Size_exceeds_Capacity_uint8:
  "run_ops 4 (Ringbuffer 4 0 :: (8, int) ringbuffer)
     (concat (replicate 254 [OpPush 0, OpPop 0]) @ [OpPush 1, OpPush 2, OpPush 3, OpPush 4, OpPush 5]) =
     \<lparr>head = 3, tail = 254, data_buff = [3, 4, 5, 2]\<rparr> \<and>
   Size (\<lparr>head = 3, tail = 254, data_buff = [3, 4, 5, 2]\<rparr> :: (8, int) ringbuffer) = 5 \<and>
   Available 4 (\<lparr>head = 3, tail = 254, data_buff = [3, 4, 5, 2]\<rparr> :: (8, int) ringbuffer) = 255 \<and>
   Capacity 4 = 4"
  by code_simp

subsection \<open>Indexed access\<close>

text \<open>
  C5: for every state and every index \<open>i\<close> of type \<^verbatim>\<open>std::size_t\<close>, \<^verbatim>\<open>At(i)\<close> returns null if
  \<open>i \<ge> head - tail\<close> and otherwise a pointer to the \<open>i\<close>-th element from the consumer front,
  the slot \<open>(tail + i) AND M\<close>. For an \<^verbatim>\<open>IndexT\<close> of at least 32 bits and an index that fits
  \<^verbatim>\<open>IndexT\<close> (every index, when \<^verbatim>\<open>IndexT\<close> is \<^verbatim>\<open>std::size_t\<close>) this is lemmas \<open>At_wide\<close> and
  \<open>At_logical_state\<close>. The bounds check compares with \<^verbatim>\<open>static_cast<IndexT>(index)\<close>, which
  drops the high bits of the index: with \<^verbatim>\<open>uint8_t\<close> and one element in the buffer,
  \<^verbatim>\<open>At(256)\<close> returns the slot of element 0, in \<^verbatim>\<open>spsc::Ringbuffer\<close> and in
  \<^verbatim>\<open>utility::Ringbuffer\<close>; with \<^verbatim>\<open>uint32_t\<close>, \<^verbatim>\<open>At(4294967296)\<close> does. And with \<^verbatim>\<open>uint8_t\<close>
  the difference on the left of the check is a negative \<^verbatim>\<open>int\<close> across the wrap, so that
  \<^verbatim>\<open>At(0)\<close> on a buffer of four elements returns null.
\<close>

theorem At_index_out_of_range_uint8:
  "Size (snd (Push 4 (Ringbuffer 4 0 :: (8, int) ringbuffer) 7)) = 1 \<and>
   At 4 (snd (Push 4 (Ringbuffer 4 0 :: (8, int) ringbuffer) 7)) 256 = Some 0 \<and>
   utility_At 4 (snd (Push 4 (Ringbuffer 4 0 :: (8, int) ringbuffer) 7)) 256 = Some 0 \<and>
   At 4 (snd (Push 4 (Ringbuffer 4 0 :: (32, int) ringbuffer) 7)) 4294967296 = Some 0 \<and>
   Size (\<lparr>head = 2, tail = 254, data_buff = [256, 257, 254, 255]\<rparr> :: (8, int) ringbuffer) = 4 \<and>
   At 4 (\<lparr>head = 2, tail = 254, data_buff = [256, 257, 254, 255]\<rparr> :: (8, int) ringbuffer) 0 = None"
  by code_simp

subsection \<open>Clear operations\<close>

text \<open>
  C6: \<^verbatim>\<open>ProducerClear\<close> sets \<open>head\<close> to \<open>tail\<close> and \<^verbatim>\<open>ConsumerClear\<close> sets \<open>tail\<close> to \<open>head\<close>,
  each leaves the buffer empty, and each writes only the counter of its own role.
  \<^verbatim>\<open>spsc::Ringbuffer\<close> does so (lemma \<open>ProducerClear_ConsumerClear_spec\<close>).
  \<^verbatim>\<open>utility::Ringbuffer::ProducerClear\<close> calls \<^verbatim>\<open>ConsumerClear\<close>: on a buffer with one element
  (\<open>head = 1\<close>, \<open>tail = 0\<close>) it leaves \<open>head\<close> at 1 and writes 1 to \<open>tail\<close>, the counter of the
  consumer.
\<close>

theorem utility_ProducerClear_writes_tail:
  "utility_Insert 4 (Ringbuffer 4 0 :: (64, int) ringbuffer) 7 =
     (True, \<lparr>head = 1, tail = 0, data_buff = [7, 0, 0, 0]\<rparr>) \<and>
   utility_ProducerClear (\<lparr>head = 1, tail = 0, data_buff = [7, 0, 0, 0]\<rparr> :: (64, int) ringbuffer) =
     \<lparr>head = 1, tail = 1, data_buff = [7, 0, 0, 0]\<rparr> \<and>
   ProducerClear (\<lparr>head = 1, tail = 0, data_buff = [7, 0, 0, 0]\<rparr> :: (64, int) ringbuffer) =
     \<lparr>head = 0, tail = 0, data_buff = [7, 0, 0, 0]\<rparr>"
  by code_simp

text \<open>
  C7, as amended: every operation other than \<^verbatim>\<open>ProducerClear\<close> stores into \<open>head\<close> the value
  it loaded plus the number of elements it pushed, and into \<open>tail\<close> the value it loaded plus
  the number of elements it popped or discarded, the sums taken modulo \<open>2 ^ LENGTH('i)\<close>; so
  the stored value is not smaller than the loaded one unless that sum passes \<^verbatim>\<open>MAX(IndexT)\<close>.
  \<^verbatim>\<open>ProducerClear\<close> stores \<open>tail\<close> into \<open>head\<close>. This holds in every state.
\<close>

theorem counters_advance:
  fixes s :: "('i::len, 'a) ringbuffer"
  assumes "op \<noteq> OpProducerClear"
  shows "head (step N s op) = head s + of_nat (elements_pushed N s op) \<and>
         tail (step N s op) = tail s + of_nat (elements_popped N s op) \<and>
         (unat (head s) + elements_pushed N s op < 2 ^ LENGTH('i) \<longrightarrow>
            head s \<le> head (step N s op)) \<and>
         (unat (tail s) + elements_popped N s op < 2 ^ LENGTH('i) \<longrightarrow>
            tail s \<le> tail (step N s op)) \<and>
         head (step N s OpProducerClear) = tail s \<and>
         tail (step N s OpProducerClear) = tail s"
  using step_counters [OF assms, of N s]
    word_le_add_of_nat [of "head s" "elements_pushed N s op"]
    word_le_add_of_nat [of "tail s" "elements_popped N s op"]
  by (simp add: ProducerClear_def)

theorem counters_advance_witness:
  "OpPush 6 \<noteq> (OpProducerClear :: int operation) \<and>
   elements_pushed 4 (\<lparr>head = 255, tail = 254, data_buff = [0, 0, 5, 0]\<rparr> :: (8, int) ringbuffer) (OpPush 6) = 1 \<and>
   head (step 4 (\<lparr>head = 255, tail = 254, data_buff = [0, 0, 5, 0]\<rparr> :: (8, int) ringbuffer) (OpPush 6)) = 255 + 1 \<and>
   unat (2 :: 8 word) + elements_pushed 4 (\<lparr>head = 2, tail = 1, data_buff = [0, 5, 0, 0]\<rparr> :: (8, int) ringbuffer) (OpPush 6) < 2 ^ LENGTH(8) \<and>
   (2 :: 8 word) \<le> head (step 4 (\<lparr>head = 2, tail = 1, data_buff = [0, 5, 0, 0]\<rparr> :: (8, int) ringbuffer) (OpPush 6)) \<and>
   OpDiscard 10 \<noteq> (OpProducerClear :: int operation) \<and>
   elements_popped 4 (\<lparr>head = 3, tail = 254, data_buff = [3, 4, 5, 2]\<rparr> :: (8, int) ringbuffer) (OpDiscard 10) = 5 \<and>
   tail (step 4 (\<lparr>head = 3, tail = 254, data_buff = [3, 4, 5, 2]\<rparr> :: (8, int) ringbuffer) (OpDiscard 10)) = 254 + 5 \<and>
   unat (1 :: 8 word) + elements_popped 4 (\<lparr>head = 2, tail = 1, data_buff = [0, 5, 0, 0]\<rparr> :: (8, int) ringbuffer) (OpPop 0) < 2 ^ LENGTH(8) \<and>
   (1 :: 8 word) \<le> tail (step 4 (\<lparr>head = 2, tail = 1, data_buff = [0, 5, 0, 0]\<rparr> :: (8, int) ringbuffer) (OpPop 0))"
proof -
  let ?s1 = "\<lparr>head = 255, tail = 254, data_buff = [0, 0, 5, 0]\<rparr> :: (8, int) ringbuffer"
  let ?s2 = "\<lparr>head = 2, tail = 1, data_buff = [0, 5, 0, 0]\<rparr> :: (8, int) ringbuffer"
  let ?s3 = "\<lparr>head = 3, tail = 254, data_buff = [3, 4, 5, 2]\<rparr> :: (8, int) ringbuffer"
  have ne: "OpPush 6 \<noteq> (OpProducerClear :: int operation)"
    "OpDiscard 10 \<noteq> (OpProducerClear :: int operation)"
    "OpPop 0 \<noteq> (OpProducerClear :: int operation)"
    by simp_all
  have ev: "elements_pushed 4 ?s1 (OpPush 6) = 1" "elements_pushed 4 ?s2 (OpPush 6) = 1"
    "elements_popped 4 ?s3 (OpDiscard 10) = 5" "elements_popped 4 ?s2 (OpPop 0) = 1"
    by code_simp+
  from counters_advance [OF ne(1), of 4 ?s1] counters_advance [OF ne(1), of 4 ?s2]
    counters_advance [OF ne(2), of 4 ?s3] counters_advance [OF ne(3), of 4 ?s2] ev
  show ?thesis
    by simp
qed

text \<open>
  C7 as stated (no operation stores into \<open>head\<close> a value smaller than the \<open>head\<close> before it)
  fails for \<^verbatim>\<open>ProducerClear\<close> on a buffer with one element, where \<open>head\<close> goes from 1 to 0, and
  for the \<^verbatim>\<open>Push\<close> that takes an 8-bit \<open>head\<close> from 255 to 0.
\<close>

theorem head_decreases_counterexample:
  "head (step 4 (step 4 (Ringbuffer 4 0 :: (64, int) ringbuffer) (OpPush 7)) OpProducerClear)
     < head (step 4 (Ringbuffer 4 0 :: (64, int) ringbuffer) (OpPush 7)) \<and>
   head (run_ops 4 (Ringbuffer 4 0 :: (8, int) ringbuffer) (concat (replicate 255 [OpPush 7, OpPop 0]))) = 255 \<and>
   head (step 4 (run_ops 4 (Ringbuffer 4 0 :: (8, int) ringbuffer) (concat (replicate 255 [OpPush 7, OpPop 0]))) (OpPush 7))
     < head (run_ops 4 (Ringbuffer 4 0 :: (8, int) ringbuffer) (concat (replicate 255 [OpPush 7, OpPop 0])))"
  by code_simp

subsection \<open>Single-element transfer\<close>

text \<open>
  C10: whenever \<^verbatim>\<open>Pop(data)\<close> returns false, \<open>data\<close> holds exactly the value it had before
  the call (and the buffer was empty and stays as it was); the slot is read and assigned only
  when the emptiness check has passed, in which case the call returns true. The same holds
  for \<^verbatim>\<open>utility::Ringbuffer::Remove(T*)\<close>.
\<close>

theorem Pop_false_leaves_data:
  "(\<not> fst (Pop N s data) \<longrightarrow>
      fst (snd (Pop N s data)) = data \<and> snd (snd (Pop N s data)) = s \<and> tail s = head s) \<and>
   (fst (Pop N s data) \<longrightarrow>
      tail s \<noteq> head s \<and> fst (snd (Pop N s data)) = data_buff s ! unat (tail s AND kMask N)) \<and>
   (\<not> fst (utility_Remove N s data) \<longrightarrow>
      fst (snd (utility_Remove N s data)) = data \<and> snd (snd (utility_Remove N s data)) = s)"
  by (simp add: Pop_def utility_Remove_def Let_def)

theorem Pop_false_leaves_data_witness:
  "\<not> fst (Pop 4 (Ringbuffer 4 0 :: (8, int) ringbuffer) 7) \<and>
   fst (snd (Pop 4 (Ringbuffer 4 0 :: (8, int) ringbuffer) 7)) = 7 \<and>
   fst (Pop 4 (snd (Push 4 (Ringbuffer 4 0 :: (8, int) ringbuffer) 5)) 7) \<and>
   fst (snd (Pop 4 (snd (Push 4 (Ringbuffer 4 0 :: (8, int) ringbuffer) 5)) 7)) = 5 \<and>
   \<not> fst (utility_Remove 4 (Ringbuffer 4 0 :: (8, int) ringbuffer) 7) \<and>
   fst (snd (utility_Remove 4 (Ringbuffer 4 0 :: (8, int) ringbuffer) 7)) = 7"
  using Pop_false_leaves_data [of 4 "Ringbuffer 4 0 :: (8, int) ringbuffer" 7]
    Pop_false_leaves_data [of 4 "snd (Push 4 (Ringbuffer 4 0 :: (8, int) ringbuffer) 5)" 7]
  by (simp add: Pop_def utility_Remove_def Push_def PushImpl_def Ringbuffer_def Let_def
      diff_eq_BufferSize_def diff_size_t_def kMask_def)

end
